theory Spec2Isabelle
  imports Main "HOL-Library.Word"
begin

section \<open>Data model (include/ddr.h, ddrconfcmp.c)\<close>

text \<open>
  \<^verbatim>\<open>struct ddrc_cfg_param { unsigned int reg; unsigned int val; }\<close> and
  \<^verbatim>\<open>struct ddrphy_cfg_param { unsigned int reg; unsigned short val; }\<close> differ only in
  the width of \<open>val\<close>, so one record with the value type as a parameter serves both.
  An array \<open>cfg\<close> with its element count \<open>num\<close> is a list; \<open>num\<close> is its length.
  The source casts every count to \<open>int\<close> before it iterates; the tables are static
  arrays of a few hundred entries, so indices are natural numbers here.
\<close>

record 'v cfg_param =
  reg :: "32 word"
  val :: "'v"

type_synonym ddrc_cfg_param = "32 word cfg_param"
type_synonym ddrphy_cfg_param = "16 word cfg_param"

text \<open>
  \<^verbatim>\<open>struct duplicate_info { unsigned int reg; unsigned int indices[64];
  unsigned int values[64]; unsigned int count; }\<close>. The two arrays are lists holding their
  first \<open>count\<close> entries. The fields carry a prefix because \<open>reg\<close> is taken by
  the record above and \<open>values\<close> is a keyword.
\<close>

record duplicate_info =
  dup_reg :: "32 word"
  dup_indices :: "nat list"
  dup_values :: "32 word list"
  dup_count :: nat

section \<open>Key-Set Differencer\<close>

text \<open>
  The inner loop that every membership test of the source repeats:
  \<^verbatim>\<open>for (j = 0; j < num; j++) if (r == cfg[j].reg) { found = 1; break; }\<close>
\<close>

fun reg_found :: "32 word \<Rightarrow> 'v cfg_param list \<Rightarrow> bool" where
  "reg_found r [] = False"
| "reg_found r (c # cs) = (if r = reg c then True else reg_found r cs)"

text \<open>
  The counting passes of \<open>find_and_display_unique_ddrc\<close>: the entries of \<open>cfg\<close> whose
  key is nowhere in \<open>other\<close> (\<open>left_count\<close>, and \<open>right_count\<close> with the arguments swapped).
\<close>

fun count_unique :: "'v cfg_param list \<Rightarrow> 'v cfg_param list \<Rightarrow> nat" where
  "count_unique [] other = 0"
| "count_unique (c # cs) other =
     (if \<not> reg_found (reg c) other then Suc (count_unique cs other) else count_unique cs other)"

text \<open>One outer loop of \<open>count_common_ddrc\<close>: the entries of \<open>cfg\<close> whose key is in \<open>other\<close>.\<close>

fun count_found :: "'v cfg_param list \<Rightarrow> 'v cfg_param list \<Rightarrow> nat" where
  "count_found [] other = 0"
| "count_found (c # cs) other =
     (if reg_found (reg c) other then Suc (count_found cs other) else count_found cs other)"

text \<open>
  \<open>count_common_ddrc\<close> returns 0 when the two counts agree and -1 otherwise, and stores
  the counts through its two pointers: the model returns the three values.
\<close>

definition count_common_ddrc ::
  "ddrc_cfg_param list \<Rightarrow> ddrc_cfg_param list \<Rightarrow> int \<times> nat \<times> nat" where
  "count_common_ddrc cfg1 cfg2 =
     (let common1 = count_found cfg1 cfg2;
          common2 = count_found cfg2 cfg1
      in (if common1 = common2 then 0 else - 1, common1, common2))"

text \<open>One outer loop of \<open>extract_common_ddrc\<close>: the same entries, copied in order.\<close>

fun extract_found :: "'v cfg_param list \<Rightarrow> 'v cfg_param list \<Rightarrow> 'v cfg_param list" where
  "extract_found [] other = []"
| "extract_found (c # cs) other =
     (if reg_found (reg c) other then c # extract_found cs other else extract_found cs other)"

definition extract_common_ddrc ::
  "ddrc_cfg_param list \<Rightarrow> ddrc_cfg_param list \<Rightarrow> ddrc_cfg_param list \<times> ddrc_cfg_param list" where
  "extract_common_ddrc cfg1 cfg2 = (extract_found cfg1 cfg2, extract_found cfg2 cfg1)"

section \<open>Order Classifier and Value Comparator\<close>

text \<open>
  The passes below run over two arrays of the same length \<open>num1\<close>; the comparator calls
  them only after it has checked \<open>num1 = num2\<close>.
  \<^verbatim>\<open>for (i = 0; i < num1; i++) if (cfg1[i].reg != cfg2[i].reg) { same_order = 0; break; }\<close>
\<close>

fun same_order :: "'v cfg_param list \<Rightarrow> 'v cfg_param list \<Rightarrow> bool" where
  "same_order (a # as) (b # bs) = (if reg a \<noteq> reg b then False else same_order as bs)"
| "same_order _ _ = True"

text \<open>\<^verbatim>\<open>for (i = 0; i < num1; i++) if (cfg1[i].val != cfg2[i].val) diff_count++;\<close>\<close>

fun count_value_diffs :: "'v cfg_param list \<Rightarrow> 'v cfg_param list \<Rightarrow> int" where
  "count_value_diffs (a # as) (b # bs) =
     (if val a \<noteq> val b then 1 + count_value_diffs as bs else count_value_diffs as bs)"
| "count_value_diffs _ _ = 0"

text \<open>
  The two presence checks of the different-order branch: \<open>all_present\<close> stays 1 only if
  every left key is found in the right array and every right key in the left one.
\<close>

definition all_present :: "'v cfg_param list \<Rightarrow> 'v cfg_param list \<Rightarrow> bool" where
  "all_present cfg1 cfg2 \<longleftrightarrow>
     list_all (\<lambda>c. reg_found (reg c) cfg2) cfg1 \<and> list_all (\<lambda>c. reg_found (reg c) cfg1) cfg2"

text \<open>
  The value pass of the different-order branch. For the left entry \<open>c\<close> the inner loop
  stops at the first right entry with the same key and counts one difference if the
  values differ there.
\<close>

fun first_match_differs :: "'v cfg_param \<Rightarrow> 'v cfg_param list \<Rightarrow> bool" where
  "first_match_differs c [] = False"
| "first_match_differs c (d # ds) =
     (if reg c = reg d then val c \<noteq> val d else first_match_differs c ds)"

fun count_reordered_diffs :: "'v cfg_param list \<Rightarrow> 'v cfg_param list \<Rightarrow> int" where
  "count_reordered_diffs [] cfg2 = 0"
| "count_reordered_diffs (c # cs) cfg2 =
     (if first_match_differs c cfg2 then 1 + count_reordered_diffs cs cfg2
      else count_reordered_diffs cs cfg2)"

section \<open>Block Relocator\<close>

text \<open>
  The lookahead of the mismatch branch:
  \<^verbatim>\<open>for (check_j = i2; check_j < i2 + 50 && check_j < num2; check_j++)
    if (r == cfg2[check_j].reg) { found_soon = 1; break; }\<close>
  looks at the entries \<open>i2, ..., min (i2 + 50, num2) - 1\<close> of the other array.
\<close>

definition found_soon :: "32 word \<Rightarrow> 'v cfg_param list \<Rightarrow> nat \<Rightarrow> bool" where
  "found_soon r cfg i = reg_found r (take 50 (drop i cfg))"

text \<open>
  \<^verbatim>\<open>while (i1 < num1 && i2 < num2 && cfg1[i1].reg == cfg2[i2].reg) { i1++; i2++; }\<close>
\<close>

function skip_matching ::
  "'v cfg_param list \<Rightarrow> 'v cfg_param list \<Rightarrow> nat \<Rightarrow> nat \<Rightarrow> nat \<times> nat" where
  "skip_matching cfg1 cfg2 i1 i2 =
     (if i1 < length cfg1 \<and> i2 < length cfg2 \<and> reg (cfg1 ! i1) = reg (cfg2 ! i2)
      then skip_matching cfg1 cfg2 (Suc i1) (Suc i2)
      else (i1, i2))"
  by pat_completeness auto
termination
  by (relation "measure (\<lambda>(cfg1, cfg2, i1, i2). length cfg1 - i1)") auto

text \<open>
  \<^verbatim>\<open>while (i1 < num1) { found_soon = ...; if (found_soon) break; i1++; }\<close>
  The cursor \<open>i\<close> walks through \<open>cfg\<close> until its entry is found in the window of
  \<open>other\<close> that starts at the other cursor \<open>k\<close>. The right-hand scan is the same loop
  with the roles of the arrays exchanged.
\<close>

function scan_block :: "'v cfg_param list \<Rightarrow> 'v cfg_param list \<Rightarrow> nat \<Rightarrow> nat \<Rightarrow> nat" where
  "scan_block cfg other i k =
     (if i < length cfg
      then (if found_soon (reg (cfg ! i)) other k then i else scan_block cfg other (Suc i) k)
      else i)"
  by pat_completeness auto
termination
  by (relation "measure (\<lambda>(cfg, other, i, k). length cfg - i)") auto

text \<open>
  The mismatch branch moves the left cursor first and the right cursor against the
  left cursor's new position.
\<close>

definition mismatch_step ::
  "'v cfg_param list \<Rightarrow> 'v cfg_param list \<Rightarrow> nat \<Rightarrow> nat \<Rightarrow> nat \<times> nat" where
  "mismatch_step cfg1 cfg2 i1 i2 =
     (let i1' = scan_block cfg1 cfg2 i1 i2;
          i2' = scan_block cfg2 cfg1 i2 i1'
      in (i1', i2'))"

text \<open>
  What the mismatch branch prints: the ranges \<open>block_start_i1 .. i1\<close> and
  \<open>block_start_i2 .. i2\<close> when both are non-empty, one of them when only that side
  moved, and nothing when neither cursor moved.
\<close>

datatype relocated_block =
    BothSides nat nat nat nat
  | LeftOnly nat nat
  | RightOnly nat nat

definition display_block :: "nat \<Rightarrow> nat \<Rightarrow> nat \<Rightarrow> nat \<Rightarrow> relocated_block list" where
  "display_block block_start_i1 i1 block_start_i2 i2 =
     (if block_start_i1 < i1 \<and> block_start_i2 < i2
        then [BothSides block_start_i1 i1 block_start_i2 i2]
      else if block_start_i1 < i1 then [LeftOnly block_start_i1 i1]
      else if block_start_i2 < i2 then [RightOnly block_start_i2 i2]
      else [])"

text \<open>
  The forward pass \<^verbatim>\<open>while (i1 < num1 && i2 < num2) { ... }\<close>. Nothing in the source
  bounds the number of its iterations, so the model is a partial function: the value
  \<open>None\<close> stands for a loop that never ends. On exit it gives the printed blocks and
  the two cursors, from which the trailing blocks are printed.
\<close>

partial_function (option) relocate_blocks ::
  "'v cfg_param list \<Rightarrow> 'v cfg_param list \<Rightarrow> nat \<Rightarrow> nat \<Rightarrow> relocated_block list
     \<Rightarrow> (relocated_block list \<times> nat \<times> nat) option" where
  "relocate_blocks cfg1 cfg2 i1 i2 blocks =
     (if i1 < length cfg1 \<and> i2 < length cfg2 then
        (if reg (cfg1 ! i1) = reg (cfg2 ! i2) then
           relocate_blocks cfg1 cfg2
             (fst (skip_matching cfg1 cfg2 i1 i2)) (snd (skip_matching cfg1 cfg2 i1 i2)) blocks
         else
           relocate_blocks cfg1 cfg2
             (fst (mismatch_step cfg1 cfg2 i1 i2)) (snd (mismatch_step cfg1 cfg2 i1 i2))
             (blocks @ display_block i1 (fst (mismatch_step cfg1 cfg2 i1 i2))
                                     i2 (snd (mismatch_step cfg1 cfg2 i1 i2))))
      else Some (blocks, i1, i2))"

declare relocate_blocks.simps [code]

section \<open>Comparator\<close>

text \<open>\<^verbatim>\<open>if (diff_count_p) *diff_count_p = diff_count;\<close> The pointer is \<open>None\<close> when it
  is NULL and \<open>Some v\<close> when it points to a cell holding \<open>v\<close>.\<close>

definition store_diff_count :: "int option \<Rightarrow> int \<Rightarrow> int option" where
  "store_diff_count diff_count_p diff_count = map_option (\<lambda>_. diff_count) diff_count_p"

text \<open>
  \<open>compare_ddrc_cfg_arrays\<close>. The result is \<open>None\<close> when the call does not return, and
  otherwise the returned code with the cell behind \<open>diff_count_p\<close> as the call leaves
  it. \<open>malloc_ok\<close> says whether both \<open>malloc\<close> calls for the common-subset arrays
  succeed. Printing, the CRC of the header and \<open>print_header\<close> do not influence the
  result and are left out.
\<close>

function compare_ddrc_cfg_arrays ::
  "bool \<Rightarrow> ddrc_cfg_param list \<Rightarrow> ddrc_cfg_param list \<Rightarrow> int option
     \<Rightarrow> (int \<times> int option) option" where
  "compare_ddrc_cfg_arrays malloc_ok cfg1 cfg2 diff_count_p =
     (if length cfg1 \<noteq> length cfg2 then
        (if fst (count_common_ddrc cfg1 cfg2) \<noteq> 0 then Some (- 1, diff_count_p)
         else if fst (snd (count_common_ddrc cfg1 cfg2)) > 0 then
           (if malloc_ok then
              (case compare_ddrc_cfg_arrays malloc_ok
                      (fst (extract_common_ddrc cfg1 cfg2)) (snd (extract_common_ddrc cfg1 cfg2))
                      diff_count_p of
                 None \<Rightarrow> None
               | Some (common_result, diff_count_p') \<Rightarrow> Some (- 1, diff_count_p'))
            else Some (- 1, diff_count_p))
         else Some (- 1, diff_count_p))
      else if same_order cfg1 cfg2 then
        Some (0, store_diff_count diff_count_p (count_value_diffs cfg1 cfg2))
      else if \<not> all_present cfg1 cfg2 then Some (- 1, diff_count_p)
      else
        (case relocate_blocks cfg1 cfg2 0 0 [] of
           None \<Rightarrow> None
         | Some trace \<Rightarrow> Some (1, store_diff_count diff_count_p (count_reordered_diffs cfg1 cfg2))))"
  by pat_completeness auto

termination
proof (relation "measure (\<lambda>(malloc_ok, cfg1, cfg2, p). if length cfg1 \<noteq> length cfg2 then 1 else 0)")
  show "wf (measure (\<lambda>(malloc_ok, cfg1, cfg2, p). if length cfg1 \<noteq> length cfg2 then 1 else (0::nat)))"
    by simp
next
  fix malloc_ok :: bool and cfg1 cfg2 :: "ddrc_cfg_param list" and diff_count_p :: "int option"
  assume "length cfg1 \<noteq> length cfg2" and "\<not> fst (count_common_ddrc cfg1 cfg2) \<noteq> 0"
  then have "count_found cfg1 cfg2 = count_found cfg2 cfg1"
    by (auto simp: count_common_ddrc_def Let_def split: if_splits)
  moreover have "length (extract_found c other) = count_found c other"
    for c other :: "ddrc_cfg_param list"
    by (induction c) auto
  ultimately
  have "length (fst (extract_common_ddrc cfg1 cfg2)) = length (snd (extract_common_ddrc cfg1 cfg2))"
    by (simp add: extract_common_ddrc_def)
  with \<open>length cfg1 \<noteq> length cfg2\<close>
  show "((malloc_ok, fst (extract_common_ddrc cfg1 cfg2), snd (extract_common_ddrc cfg1 cfg2), diff_count_p),
         (malloc_ok, cfg1, cfg2, diff_count_p))
        \<in> measure (\<lambda>(malloc_ok, cfg1, cfg2, p). if length cfg1 \<noteq> length cfg2 then 1 else 0)"
    by simp
qed

section \<open>Duplicate Scanner\<close>

text \<open>
  The inner loop of \<open>find_duplicates_ddrc\<close> over \<open>j = i + 1, ..., num - 1\<close>:
  \<^verbatim>\<open>if (cfg[i].reg == cfg[j].reg && dups[dup_count].count < 64) {
    dups[dup_count].indices[count] = j; dups[dup_count].values[count] = cfg[j].val;
    dups[dup_count].count++; processed[j] = 1; }\<close>
  \<open>d\<close> is the entry \<open>dups[dup_count]\<close> under construction. Its lists hold the first
  \<open>count\<close> slots of the arrays, so the write at slot \<open>count\<close> appends. A PHY value
  (\<open>unsigned short\<close>) is widened to \<open>unsigned int\<close>.
\<close>

fun collect_duplicates ::
  "('a::len) word cfg_param list \<Rightarrow> nat \<Rightarrow> nat list \<Rightarrow> duplicate_info \<times> bool list
     \<Rightarrow> duplicate_info \<times> bool list" where
  "collect_duplicates cfg i [] st = st"
| "collect_duplicates cfg i (j # js) (d, processed) =
     (if reg (cfg ! i) = reg (cfg ! j) \<and> dup_count d < 64
      then collect_duplicates cfg i js
             (d\<lparr>dup_indices := dup_indices d @ [j],
                dup_values := dup_values d @ [ucast (val (cfg ! j))],
                dup_count := dup_count d + 1\<rparr>,
              processed[j := True])
      else collect_duplicates cfg i js (d, processed))"

text \<open>
  The outer loop \<^verbatim>\<open>for (i = 0; i < num && dup_count < max_dups; i++)\<close>. \<open>dups\<close> is the
  list of the first \<open>dup_count\<close> entries of the output array; the entry being built
  is kept (\<open>dup_count++\<close>) only if its count exceeds 1, and is overwritten by the next
  one otherwise.
\<close>

function find_duplicates_loop ::
  "('a::len) word cfg_param list \<Rightarrow> int \<Rightarrow> nat \<Rightarrow> bool list \<Rightarrow> duplicate_info list
     \<Rightarrow> duplicate_info list" where
  "find_duplicates_loop cfg max_dups i processed dups =
     (if i < length cfg \<and> int (length dups) < max_dups then
        (if processed ! i then find_duplicates_loop cfg max_dups (Suc i) processed dups
         else
           (let st = collect_duplicates cfg i [Suc i ..< length cfg]
                       (\<lparr>dup_reg = reg (cfg ! i), dup_indices = [i],
                         dup_values = [ucast (val (cfg ! i))], dup_count = 1\<rparr>, processed)
            in if dup_count (fst st) > 1
               then find_duplicates_loop cfg max_dups (Suc i) (snd st) (dups @ [fst st])
               else find_duplicates_loop cfg max_dups (Suc i) (snd st) dups))
      else dups)"
  by pat_completeness auto
termination
  by (relation "measure (\<lambda>(cfg, max_dups, i, processed, dups). length cfg - i)") auto

text \<open>
  \<open>find_duplicates_ddrc\<close> and \<open>find_duplicates_ddrphy\<close>. \<open>calloc_ok\<close> says whether
  \<^verbatim>\<open>calloc(num, sizeof(int))\<close> succeeds; when it fails the function returns 0 at once.
  The result is the list of the entries \<open>dups[0], ..., dups[dup_count - 1]\<close>; the
  returned \<open>dup_count\<close> is its length.
\<close>

definition find_duplicates_ddrc ::
  "bool \<Rightarrow> ddrc_cfg_param list \<Rightarrow> int \<Rightarrow> duplicate_info list" where
  "find_duplicates_ddrc calloc_ok cfg max_dups =
     (if \<not> calloc_ok then []
      else find_duplicates_loop cfg max_dups 0 (replicate (length cfg) False) [])"

definition find_duplicates_ddrphy ::
  "bool \<Rightarrow> ddrphy_cfg_param list \<Rightarrow> int \<Rightarrow> duplicate_info list" where
  "find_duplicates_ddrphy calloc_ok cfg max_dups =
     (if \<not> calloc_ok then []
      else find_duplicates_loop cfg max_dups 0 (replicate (length cfg) False) [])"

section \<open>The difference count in the words of the specification\<close>

text \<open>
  This definition follows the specification, not the source: the distinct keys of the
  left list for which some right entry with the same key carries a different value.
  The number of distinct keys whose left and right values differ is the length of this
  list.
\<close>

definition differing_keys :: "'v cfg_param list \<Rightarrow> 'v cfg_param list \<Rightarrow> 32 word list" where
  "differing_keys cfg1 cfg2 =
     remdups (map reg (filter (\<lambda>c. list_ex (\<lambda>d. reg d = reg c \<and> val d \<noteq> val c) cfg2) cfg1))"

section \<open>Duplicate Scanner: notions of the specification and of the proofs\<close>

text \<open>
  The indices at which the key \<open>K\<close> occurs in \<open>cfg\<close>, in list order. This follows the
  specification's words ("key K appears n times"): \<open>n\<close> is the length of this list.
\<close>

definition occurrences :: "'v cfg_param list \<Rightarrow> 32 word \<Rightarrow> nat list" where
  "occurrences cfg K = filter (\<lambda>i. reg (cfg ! i) = K) [0 ..< length cfg]"

text \<open>
  What the inner loop collects for the entry at \<open>i\<close>: the first 63 later indices with
  the same key (the entry itself takes the first of the 64 slots), the group built from
  them, and the flags the loop sets.
\<close>

definition followers :: "'v cfg_param list \<Rightarrow> nat \<Rightarrow> nat list" where
  "followers cfg i = take 63 (filter (\<lambda>j. reg (cfg ! j) = reg (cfg ! i)) [Suc i ..< length cfg])"

definition group_at :: "('a::len) word cfg_param list \<Rightarrow> nat \<Rightarrow> duplicate_info" where
  "group_at cfg i =
     \<lparr>dup_reg = reg (cfg ! i), dup_indices = i # followers cfg i,
      dup_values = map (\<lambda>j. ucast (val (cfg ! j))) (i # followers cfg i),
      dup_count = Suc (length (followers cfg i))\<rparr>"

definition mark :: "nat list \<Rightarrow> bool list \<Rightarrow> bool list" where
  "mark js processed = fold (\<lambda>j p. p[j := True]) js processed"

text \<open>
  The invariant of the outer loop, for keys that occur at most 64 times: an index is
  flagged exactly when it is a later occurrence of a key whose first occurrence the
  loop has passed.
\<close>

definition scan_inv :: "'v cfg_param list \<Rightarrow> nat \<Rightarrow> bool list \<Rightarrow> bool" where
  "scan_inv cfg i processed \<longleftrightarrow>
     length processed = length cfg \<and>
     (\<forall>j<length cfg. length (occurrences cfg (reg (cfg ! j))) \<le> 64 \<longrightarrow>
        (processed ! j \<longleftrightarrow>
           hd (occurrences cfg (reg (cfg ! j))) < i \<and> j \<noteq> hd (occurrences cfg (reg (cfg ! j)))))"

text \<open>
  The indices at which the loop opens the groups it keeps, and the condition that no
  repeated key with at most 64 occurrences is left out from \<open>i\<close> on.
\<close>

definition leaders_ok :: "'v cfg_param list \<Rightarrow> nat \<Rightarrow> nat list \<Rightarrow> bool" where
  "leaders_ok cfg i ls \<longleftrightarrow>
     sorted_wrt (<) ls \<and>
     (\<forall>l\<in>set ls. i \<le> l \<and> l < length cfg \<and> followers cfg l \<noteq> [] \<and>
        (length (occurrences cfg (reg (cfg ! l))) \<le> 64 \<longrightarrow>
           hd (occurrences cfg (reg (cfg ! l))) = l))"

definition complete_from :: "'v cfg_param list \<Rightarrow> nat \<Rightarrow> nat list \<Rightarrow> bool" where
  "complete_from cfg i ls \<longleftrightarrow>
     (\<forall>K. 1 < length (occurrences cfg K) \<and> length (occurrences cfg K) \<le> 64 \<and>
          i \<le> hd (occurrences cfg K) \<longrightarrow> hd (occurrences cfg K) \<in> set ls)"

section \<open>Stuck cursors\<close>

text \<open>
  The cursors are stuck when both are inside their lists, their keys differ, and each
  key is found in the other list's window: the mismatch branch then moves neither
  cursor and prints nothing, and the loop repeats in the same state.
\<close>

definition stuck :: "'v cfg_param list \<Rightarrow> 'v cfg_param list \<Rightarrow> nat \<Rightarrow> nat \<Rightarrow> bool" where
  "stuck cfg1 cfg2 i1 i2 \<longleftrightarrow>
     i1 < length cfg1 \<and> i2 < length cfg2 \<and> reg (cfg1 ! i1) \<noteq> reg (cfg2 ! i2) \<and>
     found_soon (reg (cfg1 ! i1)) cfg2 i2 \<and> found_soon (reg (cfg2 ! i2)) cfg1 i1"

text \<open>
  The recursive equations of each loop are unfolded by hand in the proofs below, one
  iteration at a time.
\<close>

declare compare_ddrc_cfg_arrays.simps [simp del]
declare find_duplicates_loop.simps [simp del]
declare skip_matching.simps [simp del]
declare scan_block.simps [simp del]

section \<open>Membership and the key-set partition\<close>

lemma reg_found_iff: "reg_found r cfg \<longleftrightarrow> r \<in> reg ` set cfg"
  by (induction cfg) auto

lemma count_found_filter:
  "count_found cfg other = length (filter (\<lambda>c. reg c \<in> reg ` set other) cfg)"
  by (induction cfg) (auto simp: reg_found_iff)

lemma count_unique_filter:
  "count_unique cfg other = length (filter (\<lambda>c. reg c \<notin> reg ` set other) cfg)"
  by (induction cfg) (auto simp: reg_found_iff)

lemma extract_found_filter:
  "extract_found cfg other = filter (\<lambda>c. reg c \<in> reg ` set other) cfg"
  by (induction cfg) (auto simp: reg_found_iff)

lemma key_partition: "count_unique cfg other + count_found cfg other = length cfg"
  by (induction cfg) auto

lemma length_extract_found: "length (extract_found cfg other) = count_found cfg other"
  by (simp add: extract_found_filter count_found_filter)

text \<open>
  Each side of the differencer splits its list into the entries whose key the other
  list lacks and those whose key it has, and the extracted sublists have the counted
  lengths.
\<close>

lemma differencer_partition:
  "count_unique cfg1 cfg2 + fst (snd (count_common_ddrc cfg1 cfg2)) = length cfg1 \<and>
   count_unique cfg2 cfg1 + snd (snd (count_common_ddrc cfg1 cfg2)) = length cfg2 \<and>
   length (fst (extract_common_ddrc cfg1 cfg2)) = fst (snd (count_common_ddrc cfg1 cfg2)) \<and>
   length (snd (extract_common_ddrc cfg1 cfg2)) = snd (snd (count_common_ddrc cfg1 cfg2))"
  by (simp add: count_common_ddrc_def extract_common_ddrc_def Let_def key_partition
      length_extract_found)

text \<open>
  The two counts agree when neither list repeats a key: each then counts the keys the
  lists share.
\<close>

lemma count_found_distinct:
  assumes "distinct (map reg cfg)"
  shows "count_found cfg other = card (reg ` set cfg \<inter> reg ` set other)"
proof -
  let ?ks = "filter (\<lambda>r. r \<in> reg ` set other) (map reg cfg)"
  have "distinct ?ks"
    using assms by (rule distinct_filter)
  then have "card (set ?ks) = length ?ks"
    by (rule distinct_card)
  moreover have "set ?ks = reg ` set cfg \<inter> reg ` set other"
    by auto
  moreover have "length ?ks = count_found cfg other"
    by (simp add: count_found_filter filter_map comp_def)
  ultimately show ?thesis by simp
qed

lemma count_common_distinct:
  assumes "distinct (map reg cfg1)" and "distinct (map reg cfg2)"
  shows "fst (count_common_ddrc cfg1 cfg2) = 0"
  using assms by (simp add: count_common_ddrc_def Let_def count_found_distinct Int_commute)

section \<open>A forward pass that never ends\<close>

lemma scan_block_found: "found_soon (reg (cfg ! i)) other k \<Longrightarrow> scan_block cfg other i k = i"
  by (subst scan_block.simps) simp

lemma mismatch_step_stuck: "stuck cfg1 cfg2 i1 i2 \<Longrightarrow> mismatch_step cfg1 cfg2 i1 i2 = (i1, i2)"
  by (simp add: stuck_def mismatch_step_def scan_block_found)

lemma relocate_blocks_not_stuck:
  "relocate_blocks cfg1 cfg2 i1 i2 blocks = Some y \<Longrightarrow> \<not> stuck cfg1 cfg2 i1 i2"
proof (rule relocate_blocks.raw_induct
    [where P = "\<lambda>c1 c2 j1 j2 bs r. \<not> stuck c1 c2 j1 j2"])
  fix f :: "'a cfg_param list \<Rightarrow> 'a cfg_param list \<Rightarrow> nat \<Rightarrow> nat \<Rightarrow> relocated_block list
     \<Rightarrow> (relocated_block list \<times> nat \<times> nat) option"
    and c1 c2 j1 j2 bs r
  assume IH: "\<And>c1 c2 j1 j2 bs r. f c1 c2 j1 j2 bs = Some r \<Longrightarrow> \<not> stuck c1 c2 j1 j2"
    and body: "(if j1 < length c1 \<and> j2 < length c2 then
        (if reg (c1 ! j1) = reg (c2 ! j2) then
           f c1 c2 (fst (skip_matching c1 c2 j1 j2)) (snd (skip_matching c1 c2 j1 j2)) bs
         else
           f c1 c2 (fst (mismatch_step c1 c2 j1 j2)) (snd (mismatch_step c1 c2 j1 j2))
             (bs @ display_block j1 (fst (mismatch_step c1 c2 j1 j2))
                                     j2 (snd (mismatch_step c1 c2 j1 j2))))
      else Some (bs, j1, j2)) = Some r"
  show "\<not> stuck c1 c2 j1 j2"
  proof
    assume s: "stuck c1 c2 j1 j2"
    then have "f c1 c2 j1 j2 (bs @ display_block j1 j1 j2 j2) = Some r"
      using body mismatch_step_stuck [OF s] by (simp add: stuck_def)
    from IH [OF this] s show False by simp
  qed
qed

lemma relocate_blocks_stuck:
  "stuck cfg1 cfg2 i1 i2 \<Longrightarrow> relocate_blocks cfg1 cfg2 i1 i2 blocks = None"
  using relocate_blocks_not_stuck [of cfg1 cfg2 i1 i2 blocks]
  by (cases "relocate_blocks cfg1 cfg2 i1 i2 blocks") auto

section \<open>The comparator on lists of equal length\<close>

lemma same_order_iff:
  "length cfg1 = length cfg2 \<Longrightarrow> same_order cfg1 cfg2 \<longleftrightarrow> map reg cfg1 = map reg cfg2"
  by (induction cfg1 cfg2 rule: list_induct2) auto

lemma all_present_iff: "all_present cfg1 cfg2 \<longleftrightarrow> reg ` set cfg1 = reg ` set cfg2"
  by (auto simp: all_present_def list_all_iff reg_found_iff)

lemma same_order_refl: "same_order cfg cfg"
  by (induction cfg) auto

lemma count_value_diffs_refl: "count_value_diffs cfg cfg = 0"
  by (induction cfg) auto

text \<open>
  C9. Comparing a list against itself returns 0 (identical order) and stores the
  difference count 0 through \<open>diff_count_p\<close>.
\<close>

theorem compare_self_identical:
  "compare_ddrc_cfg_arrays malloc_ok cfg cfg diff_count_p
     = Some (0, map_option (\<lambda>_. 0) diff_count_p)"
  by (subst compare_ddrc_cfg_arrays.simps)
    (simp add: same_order_refl count_value_diffs_refl store_diff_count_def)

theorem compare_self_identical_witness:
  "compare_ddrc_cfg_arrays True
     [\<lparr>reg = 0x10, val = 1\<rparr>, \<lparr>reg = 0x10, val = 2\<rparr>, \<lparr>reg = 0x30, val = 3\<rparr>]
     [\<lparr>reg = 0x10, val = 1\<rparr>, \<lparr>reg = 0x10, val = 2\<rparr>, \<lparr>reg = 0x30, val = 3\<rparr>]
     (Some 7) = Some (0, Some 0)"
  using compare_self_identical
    [of True "[\<lparr>reg = 0x10, val = 1\<rparr>, \<lparr>reg = 0x10, val = 2\<rparr>, \<lparr>reg = 0x30, val = 3\<rparr>]" "Some 7"]
  by simp

text \<open>
  C1. For two lists of equal length the comparator decides in three steps, and the third
  step is to return 1 when the key sets match and the order differs. On the two-entry
  lists below the lengths are equal, the keys differ at index 0 and every key is
  present on both sides, so the comparator is in the third step; but the forward pass
  over the blocks starts with stuck cursors and the call never returns.
\<close>

theorem compare_swapped_pair_never_returns:
  "length [\<lparr>reg = 0x10, val = 1 :: 32 word\<rparr>, \<lparr>reg = 0x20, val = 2\<rparr>]
     = length [\<lparr>reg = 0x20, val = 2 :: 32 word\<rparr>, \<lparr>reg = 0x10, val = 1\<rparr>] \<and>
   \<not> same_order [\<lparr>reg = 0x10, val = 1 :: 32 word\<rparr>, \<lparr>reg = 0x20, val = 2\<rparr>]
       [\<lparr>reg = 0x20, val = 2\<rparr>, \<lparr>reg = 0x10, val = 1\<rparr>] \<and>
   all_present [\<lparr>reg = 0x10, val = 1 :: 32 word\<rparr>, \<lparr>reg = 0x20, val = 2\<rparr>]
       [\<lparr>reg = 0x20, val = 2\<rparr>, \<lparr>reg = 0x10, val = 1\<rparr>] \<and>
   compare_ddrc_cfg_arrays True
       [\<lparr>reg = 0x10, val = 1\<rparr>, \<lparr>reg = 0x20, val = 2\<rparr>]
       [\<lparr>reg = 0x20, val = 2\<rparr>, \<lparr>reg = 0x10, val = 1\<rparr>] (Some 0) = None"
proof -
  have "stuck [\<lparr>reg = 0x10, val = 1 :: 32 word\<rparr>, \<lparr>reg = 0x20, val = 2\<rparr>]
     [\<lparr>reg = 0x20, val = 2\<rparr>, \<lparr>reg = 0x10, val = 1\<rparr>] 0 0"
    by (simp add: stuck_def found_soon_def)
  then show ?thesis
    by (simp add: compare_ddrc_cfg_arrays.simps relocate_blocks_stuck all_present_def)
qed

section \<open>The comparator on lists of different length\<close>

text \<open>Whenever a call on lists of different length returns, it returns -1.\<close>

lemma compare_length_mismatch_code:
  assumes "length cfg1 \<noteq> length cfg2"
    and "compare_ddrc_cfg_arrays malloc_ok cfg1 cfg2 diff_count_p = Some (r, d)"
  shows "r = - 1"
  using assms by (subst (asm) compare_ddrc_cfg_arrays.simps) (auto split: if_splits option.splits)

text \<open>
  C2. A call on lists of different length is to return -1 whatever the nested
  comparison of the common sublists does. Below, the left list has three entries and
  the right list two; the common sublists are the swapped pair of C1, the nested call
  on them never returns, and so the parent never returns its -1.
\<close>

theorem compare_common_subset_never_returns:
  "length [\<lparr>reg = 0x10, val = 1 :: 32 word\<rparr>, \<lparr>reg = 0x20, val = 2\<rparr>, \<lparr>reg = 0x30, val = 3\<rparr>]
     \<noteq> length [\<lparr>reg = 0x20, val = 2 :: 32 word\<rparr>, \<lparr>reg = 0x10, val = 1\<rparr>] \<and>
   extract_common_ddrc
       [\<lparr>reg = 0x10, val = 1\<rparr>, \<lparr>reg = 0x20, val = 2\<rparr>, \<lparr>reg = 0x30, val = 3\<rparr>]
       [\<lparr>reg = 0x20, val = 2\<rparr>, \<lparr>reg = 0x10, val = 1\<rparr>]
     = ([\<lparr>reg = 0x10, val = 1\<rparr>, \<lparr>reg = 0x20, val = 2\<rparr>],
        [\<lparr>reg = 0x20, val = 2\<rparr>, \<lparr>reg = 0x10, val = 1\<rparr>]) \<and>
   compare_ddrc_cfg_arrays True
       [\<lparr>reg = 0x10, val = 1\<rparr>, \<lparr>reg = 0x20, val = 2\<rparr>, \<lparr>reg = 0x30, val = 3\<rparr>]
       [\<lparr>reg = 0x20, val = 2\<rparr>, \<lparr>reg = 0x10, val = 1\<rparr>] (Some 0) = None"
proof -
  have "stuck [\<lparr>reg = 0x10, val = 1 :: 32 word\<rparr>, \<lparr>reg = 0x20, val = 2\<rparr>]
     [\<lparr>reg = 0x20, val = 2\<rparr>, \<lparr>reg = 0x10, val = 1\<rparr>] 0 0"
    by (simp add: stuck_def found_soon_def)
  then show ?thesis
    by (simp add: compare_ddrc_cfg_arrays.simps relocate_blocks_stuck all_present_def
        count_common_ddrc_def extract_common_ddrc_def)
qed

text \<open>
  C3. The two common counts are to be equal for any two lists. With the key 0x10 twice
  on the left and once on the right, \<open>count_common_ddrc\<close> counts 2 and 1 and returns
  -1, and \<open>extract_common_ddrc\<close> would copy two entries and one.
\<close>

theorem count_common_ddrc_repeated_key:
  "count_common_ddrc [\<lparr>reg = 0x10, val = 1\<rparr>, \<lparr>reg = 0x10, val = 2\<rparr>] [\<lparr>reg = 0x10, val = 1\<rparr>]
     = (- 1, 2, 1) \<and>
   extract_common_ddrc [\<lparr>reg = 0x10, val = 1\<rparr>, \<lparr>reg = 0x10, val = 2\<rparr>] [\<lparr>reg = 0x10, val = 1\<rparr>]
     = ([\<lparr>reg = 0x10, val = 1\<rparr>, \<lparr>reg = 0x10, val = 2\<rparr>], [\<lparr>reg = 0x10, val = 1\<rparr>])"
  by (simp add: count_common_ddrc_def extract_common_ddrc_def)

text \<open>
  C5. A list with distinct keys compared against a permutation of it is to give 1. The
  lists are the example of the specification: left (0x10,1), (0x20,2), (0x30,3) and
  right (0x20,2), (0x10,9), (0x30,3). The call never returns.
\<close>

theorem compare_spec_example_never_returns:
  "distinct (map reg [\<lparr>reg = 0x10, val = 1 :: 32 word\<rparr>, \<lparr>reg = 0x20, val = 2\<rparr>, \<lparr>reg = 0x30, val = 3\<rparr>]) \<and>
   map reg [\<lparr>reg = 0x20, val = 2 :: 32 word\<rparr>, \<lparr>reg = 0x10, val = 9\<rparr>, \<lparr>reg = 0x30, val = 3\<rparr>]
     = [0x20, 0x10, 0x30] \<and>
   compare_ddrc_cfg_arrays True
       [\<lparr>reg = 0x10, val = 1\<rparr>, \<lparr>reg = 0x20, val = 2\<rparr>, \<lparr>reg = 0x30, val = 3\<rparr>]
       [\<lparr>reg = 0x20, val = 2\<rparr>, \<lparr>reg = 0x10, val = 9\<rparr>, \<lparr>reg = 0x30, val = 3\<rparr>] (Some 0) = None"
proof -
  have "stuck [\<lparr>reg = 0x10, val = 1 :: 32 word\<rparr>, \<lparr>reg = 0x20, val = 2\<rparr>, \<lparr>reg = 0x30, val = 3\<rparr>]
     [\<lparr>reg = 0x20, val = 2\<rparr>, \<lparr>reg = 0x10, val = 9\<rparr>, \<lparr>reg = 0x30, val = 3\<rparr>] 0 0"
    by (simp add: stuck_def found_soon_def)
  then show ?thesis
    by (simp add: compare_ddrc_cfg_arrays.simps relocate_blocks_stuck all_present_def)
qed

text \<open>
  C6, as the code has it. When the lengths differ and the two common counts disagree,
  the comparator returns -1 and leaves the cell behind \<open>diff_count_p\<close> as it was. That
  is the result of an ordinary structural mismatch too: of lists \<open>a\<close>, \<open>b\<close> of
  different length that share no key, and of lists of equal length with different key
  sets.
\<close>

theorem compare_count_disagreement:
  assumes "length cfg1 \<noteq> length cfg2" and "fst (count_common_ddrc cfg1 cfg2) \<noteq> 0"
  shows "compare_ddrc_cfg_arrays malloc_ok cfg1 cfg2 diff_count_p = Some (- 1, diff_count_p) \<and>
    (length a \<noteq> length b \<and> count_common_ddrc a b = (0, 0, 0) \<longrightarrow>
       compare_ddrc_cfg_arrays malloc_ok a b diff_count_p = Some (- 1, diff_count_p)) \<and>
    (length a = length b \<and> \<not> same_order a b \<and> \<not> all_present a b \<longrightarrow>
       compare_ddrc_cfg_arrays malloc_ok a b diff_count_p = Some (- 1, diff_count_p))"
proof -
  have "compare_ddrc_cfg_arrays malloc_ok cfg1 cfg2 diff_count_p = Some (- 1, diff_count_p)"
    using assms by (subst compare_ddrc_cfg_arrays.simps) simp
  moreover have "compare_ddrc_cfg_arrays malloc_ok a b diff_count_p = Some (- 1, diff_count_p)"
    if "length a \<noteq> length b" and "count_common_ddrc a b = (0, 0, 0)"
    using that by (subst compare_ddrc_cfg_arrays.simps) simp
  moreover have "compare_ddrc_cfg_arrays malloc_ok a b diff_count_p = Some (- 1, diff_count_p)"
    if "length a = length b" and "\<not> same_order a b" and "\<not> all_present a b"
    using that by (subst compare_ddrc_cfg_arrays.simps) simp
  ultimately show ?thesis by blast
qed

theorem compare_count_disagreement_witness:
  "length [\<lparr>reg = 0x10, val = 1 :: 32 word\<rparr>, \<lparr>reg = 0x10, val = 2\<rparr>]
     \<noteq> length [\<lparr>reg = 0x10, val = 1 :: 32 word\<rparr>] \<and>
   fst (count_common_ddrc [\<lparr>reg = 0x10, val = 1\<rparr>, \<lparr>reg = 0x10, val = 2\<rparr>] [\<lparr>reg = 0x10, val = 1\<rparr>]) \<noteq> 0 \<and>
   compare_ddrc_cfg_arrays True [\<lparr>reg = 0x10, val = 1\<rparr>, \<lparr>reg = 0x10, val = 2\<rparr>]
     [\<lparr>reg = 0x10, val = 1\<rparr>] (Some 5) = Some (- 1, Some 5) \<and>
   count_common_ddrc [\<lparr>reg = 0x10, val = 1\<rparr>] [] = (0, 0, 0) \<and>
   compare_ddrc_cfg_arrays True [\<lparr>reg = 0x10, val = 1\<rparr>] [] (Some 5) = Some (- 1, Some 5) \<and>
   \<not> all_present [\<lparr>reg = 0x10, val = 1 :: 32 word\<rparr>] [\<lparr>reg = 0x20, val = 1\<rparr>] \<and>
   compare_ddrc_cfg_arrays True [\<lparr>reg = 0x10, val = 1\<rparr>] [\<lparr>reg = 0x20, val = 1\<rparr>] (Some 5)
     = Some (- 1, Some 5)"
proof -
  have h1: "length [\<lparr>reg = 0x10, val = 1 :: 32 word\<rparr>, \<lparr>reg = 0x10, val = 2\<rparr>]
     \<noteq> length [\<lparr>reg = 0x10, val = 1 :: 32 word\<rparr>]"
    by simp
  have h2: "fst (count_common_ddrc [\<lparr>reg = 0x10, val = 1\<rparr>, \<lparr>reg = 0x10, val = 2\<rparr>]
     [\<lparr>reg = 0x10, val = 1\<rparr>]) \<noteq> 0"
    by (simp add: count_common_ddrc_def)
  have h3: "count_common_ddrc [\<lparr>reg = 0x10, val = 1\<rparr>] [] = (0, 0, 0)"
    by (simp add: count_common_ddrc_def)
  have h4: "\<not> all_present [\<lparr>reg = 0x10, val = 1 :: 32 word\<rparr>] [\<lparr>reg = 0x20, val = 1\<rparr>]"
    by (simp add: all_present_def)
  show ?thesis
    using compare_count_disagreement [OF h1 h2, of True "Some 5" "[\<lparr>reg = 0x10, val = 1\<rparr>]" "[]"]
      compare_count_disagreement [OF h1 h2, of True "Some 5" "[\<lparr>reg = 0x10, val = 1\<rparr>]"
        "[\<lparr>reg = 0x20, val = 1\<rparr>]"]
      h2 h3 h4
    by simp
qed

text \<open>
  C6, as stated: the result for disagreeing counts is to differ from the result of an
  ordinary structural mismatch. The first pair of lists has counts 2 and 1, the second
  pair is an ordinary mismatch of lengths 1 and 0, and the comparator returns the same
  value for both.
\<close>

theorem compare_count_disagreement_counterexample:
  "fst (count_common_ddrc [\<lparr>reg = 0x10, val = 1\<rparr>, \<lparr>reg = 0x10, val = 2\<rparr>] [\<lparr>reg = 0x10, val = 1\<rparr>]) = - 1 \<and>
   fst (count_common_ddrc [\<lparr>reg = 0x10, val = 1\<rparr>] []) = 0 \<and>
   compare_ddrc_cfg_arrays True [\<lparr>reg = 0x10, val = 1\<rparr>, \<lparr>reg = 0x10, val = 2\<rparr>] [\<lparr>reg = 0x10, val = 1\<rparr>] (Some 0)
     = compare_ddrc_cfg_arrays True [\<lparr>reg = 0x10, val = 1\<rparr>] [] (Some 0)"
  by (simp add: compare_ddrc_cfg_arrays.simps count_common_ddrc_def)

section \<open>Duplicate Scanner: unfolding the outer loop\<close>

lemma find_duplicates_loop_done:
  "\<not> (i < length cfg \<and> int (length dups) < max_dups) \<Longrightarrow>
   find_duplicates_loop cfg max_dups i processed dups = dups"
  by (subst find_duplicates_loop.simps) auto

lemma find_duplicates_loop_skip:
  "i < length cfg \<Longrightarrow> int (length dups) < max_dups \<Longrightarrow> processed ! i \<Longrightarrow>
   find_duplicates_loop cfg max_dups i processed dups
     = find_duplicates_loop cfg max_dups (Suc i) processed dups"
  by (subst find_duplicates_loop.simps) simp

lemma find_duplicates_loop_leader:
  "i < length cfg \<Longrightarrow> int (length dups) < max_dups \<Longrightarrow> \<not> processed ! i \<Longrightarrow>
   find_duplicates_loop cfg max_dups i processed dups
     = (let st = collect_duplicates cfg i [Suc i ..< length cfg]
                   (\<lparr>dup_reg = reg (cfg ! i), dup_indices = [i],
                     dup_values = [ucast (val (cfg ! i))], dup_count = 1\<rparr>, processed)
        in if dup_count (fst st) > 1
           then find_duplicates_loop cfg max_dups (Suc i) (snd st) (dups @ [fst st])
           else find_duplicates_loop cfg max_dups (Suc i) (snd st) dups)"
  by (subst find_duplicates_loop.simps) simp

lemma collect_duplicates_no_match:
  "\<forall>j\<in>set js. reg (cfg ! i) \<noteq> reg (cfg ! j) \<Longrightarrow> collect_duplicates cfg i js st = st"
  by (induction js arbitrary: st) (auto split: prod.splits)

lemma find_duplicates_loop_distinct:
  "distinct (map reg cfg) \<Longrightarrow> find_duplicates_loop cfg max_dups i processed dups = dups"
proof (induction cfg max_dups i processed dups rule: find_duplicates_loop.induct)
  case (1 cfg max_dups i processed dups)
  show ?case
  proof (cases "i < length cfg \<and> int (length dups) < max_dups")
    case False
    then show ?thesis by (rule find_duplicates_loop_done)
  next
    case True
    then have "\<forall>j\<in>set [Suc i ..< length cfg]. reg (cfg ! i) \<noteq> reg (cfg ! j)"
      using "1.prems" by (auto simp: distinct_conv_nth)
    then have c: "collect_duplicates cfg i [Suc i ..< length cfg] st = st" for st
      by (rule collect_duplicates_no_match)
    show ?thesis
    proof (cases "processed ! i")
      case p: True
      with True "1.IH"(1) "1.prems" show ?thesis
        by (simp add: find_duplicates_loop_skip)
    next
      case p: False
      with True "1.IH"(3) [OF True p refl] "1.prems" c show ?thesis
        by (simp add: find_duplicates_loop_leader)
    qed
  qed
qed

text \<open>
  C10. When \<open>calloc\<close> fails, \<open>find_duplicates_ddrc\<close> and \<open>find_duplicates_ddrphy\<close>
  return no group, which is also what they return, with \<open>calloc\<close> succeeding, for any
  list whose keys are pairwise distinct.
\<close>

theorem find_duplicates_calloc_failure:
  "find_duplicates_ddrc False cfg max_dups = [] \<and>
   find_duplicates_ddrphy False pcfg max_dups = [] \<and>
   (distinct (map reg cfg') \<longrightarrow>
      find_duplicates_ddrc True cfg' max_dups = find_duplicates_ddrc False cfg max_dups) \<and>
   (distinct (map reg pcfg') \<longrightarrow>
      find_duplicates_ddrphy True pcfg' max_dups = find_duplicates_ddrphy False pcfg max_dups)"
  by (simp add: find_duplicates_ddrc_def find_duplicates_ddrphy_def find_duplicates_loop_distinct)

theorem find_duplicates_calloc_failure_witness:
  "find_duplicates_ddrc False [\<lparr>reg = 0x10, val = 1\<rparr>, \<lparr>reg = 0x10, val = 2\<rparr>] 100 = [] \<and>
   find_duplicates_ddrphy False [\<lparr>reg = 0x10, val = 1\<rparr>, \<lparr>reg = 0x10, val = 2\<rparr>] 100 = [] \<and>
   distinct (map reg [\<lparr>reg = 0x10, val = 1 :: 32 word\<rparr>, \<lparr>reg = 0x20, val = 2\<rparr>]) \<and>
   find_duplicates_ddrc True [\<lparr>reg = 0x10, val = 1\<rparr>, \<lparr>reg = 0x20, val = 2\<rparr>] 100 = [] \<and>
   distinct (map reg [\<lparr>reg = 0x10, val = 1 :: 16 word\<rparr>, \<lparr>reg = 0x20, val = 2\<rparr>]) \<and>
   find_duplicates_ddrphy True [\<lparr>reg = 0x10, val = 1\<rparr>, \<lparr>reg = 0x20, val = 2\<rparr>] 100 = [] \<and>
   find_duplicates_ddrc True [\<lparr>reg = 0x10, val = 1\<rparr>, \<lparr>reg = 0x10, val = 2\<rparr>] 100
     = [\<lparr>dup_reg = 0x10, dup_indices = [0, 1], dup_values = [1, 2], dup_count = 2\<rparr>]"
proof -
  have d1: "distinct (map reg [\<lparr>reg = 0x10, val = 1 :: 32 word\<rparr>, \<lparr>reg = 0x20, val = 2\<rparr>])"
    by simp
  have d2: "distinct (map reg [\<lparr>reg = 0x10, val = 1 :: 16 word\<rparr>, \<lparr>reg = 0x20, val = 2\<rparr>])"
    by simp
  have e: "find_duplicates_ddrc True [\<lparr>reg = 0x10, val = 1\<rparr>, \<lparr>reg = 0x10, val = 2\<rparr>] 100
     = [\<lparr>dup_reg = 0x10, dup_indices = [0, 1], dup_values = [1, 2], dup_count = 2\<rparr>]"
    by (simp add: find_duplicates_ddrc_def find_duplicates_loop.simps)
  show ?thesis
    using find_duplicates_calloc_failure
      [of "[\<lparr>reg = 0x10, val = 1\<rparr>, \<lparr>reg = 0x10, val = 2\<rparr>]" 100
          "[\<lparr>reg = 0x10, val = 1\<rparr>, \<lparr>reg = 0x10, val = 2\<rparr>]"
          "[\<lparr>reg = 0x10, val = 1\<rparr>, \<lparr>reg = 0x20, val = 2\<rparr>]"
          "[\<lparr>reg = 0x10, val = 1\<rparr>, \<lparr>reg = 0x20, val = 2\<rparr>]"]
      d1 d2 e
    by simp
qed

section \<open>Block Relocator: the two scans of a mismatch\<close>

lemma found_soon_iff:
  "found_soon r cfg i \<longleftrightarrow> (\<exists>j. i \<le> j \<and> j < i + 50 \<and> j < length cfg \<and> reg (cfg ! j) = r)"
proof
  assume "found_soon r cfg i"
  then obtain c where c: "c \<in> set (take 50 (drop i cfg))" and r: "reg c = r"
    by (auto simp: found_soon_def reg_found_iff)
  from c obtain k where k: "k < length (take 50 (drop i cfg))" and ck: "take 50 (drop i cfg) ! k = c"
    by (auto simp: in_set_conv_nth)
  from k have "k < 50" and "i + k < length cfg" by auto
  moreover from k ck have "cfg ! (i + k) = c" by (auto simp: nth_drop)
  ultimately show "\<exists>j. i \<le> j \<and> j < i + 50 \<and> j < length cfg \<and> reg (cfg ! j) = r"
    using r by (intro exI [of _ "i + k"]) simp
next
  assume "\<exists>j. i \<le> j \<and> j < i + 50 \<and> j < length cfg \<and> reg (cfg ! j) = r"
  then obtain j where j: "i \<le> j" "j < i + 50" "j < length cfg" "reg (cfg ! j) = r"
    by blast
  then have "j - i < length (take 50 (drop i cfg))" by auto
  moreover have "take 50 (drop i cfg) ! (j - i) = cfg ! j"
    using j by simp
  ultimately have "cfg ! j \<in> set (take 50 (drop i cfg))"
    by (metis nth_mem)
  with j(4) show "found_soon r cfg i"
    by (auto simp: found_soon_def reg_found_iff)
qed

lemma scan_block_ge: "i \<le> scan_block cfg other i k"
proof (induction cfg other i k rule: scan_block.induct)
  case (1 cfg other i k)
  then show ?case
    by (subst scan_block.simps) (auto simp: Suc_leD)
qed

lemma scan_block_le: "i \<le> length cfg \<Longrightarrow> scan_block cfg other i k \<le> length cfg"
proof (induction cfg other i k rule: scan_block.induct)
  case (1 cfg other i k)
  then show ?case
    by (subst scan_block.simps) auto
qed

lemma scan_block_skipped:
  "i \<le> m \<Longrightarrow> m < scan_block cfg other i k \<Longrightarrow> \<not> found_soon (reg (cfg ! m)) other k"
proof (induction cfg other i k rule: scan_block.induct)
  case (1 cfg other i k)
  show ?case
  proof (cases "i < length cfg \<and> \<not> found_soon (reg (cfg ! i)) other k")
    case True
    then have eq: "scan_block cfg other i k = scan_block cfg other (Suc i) k"
      by (subst scan_block.simps) simp
    show ?thesis
    proof (cases "m = i")
      case True
      with \<open>i < length cfg \<and> \<not> found_soon (reg (cfg ! i)) other k\<close> show ?thesis by simp
    next
      case False
      with "1.prems" have "Suc i \<le> m" by simp
      with "1.IH" True "1.prems" eq show ?thesis by simp
    qed
  next
    case False
    then have "scan_block cfg other i k = i"
      by (subst scan_block.simps) auto
    with "1.prems" show ?thesis by simp
  qed
qed

lemma scan_block_stops:
  "scan_block cfg other i k < length cfg \<Longrightarrow>
   found_soon (reg (cfg ! scan_block cfg other i k)) other k"
proof (induction cfg other i k rule: scan_block.induct)
  case (1 cfg other i k)
  show ?case
  proof (cases "i < length cfg")
    case True
    show ?thesis
    proof (cases "found_soon (reg (cfg ! i)) other k")
      case f: True
      then show ?thesis by (simp add: scan_block_found)
    next
      case f: False
      with True have eq: "scan_block cfg other i k = scan_block cfg other (Suc i) k"
        by (subst scan_block.simps) simp
      with "1.IH" [OF True f] "1.prems" show ?thesis by simp
    qed
  next
    case False
    then have "scan_block cfg other i k = i"
      by (subst scan_block.simps) simp
    with False "1.prems" show ?thesis by simp
  qed
qed

lemma relocate_blocks_mismatch:
  assumes "i1 < length cfg1" and "i2 < length cfg2" and "reg (cfg1 ! i1) \<noteq> reg (cfg2 ! i2)"
    and "mismatch_step cfg1 cfg2 i1 i2 = (i1', i2')"
  shows "relocate_blocks cfg1 cfg2 i1 i2 blocks
     = relocate_blocks cfg1 cfg2 i1' i2' (blocks @ display_block i1 i1' i2 i2')"
  using assms by (subst relocate_blocks.simps) simp

text \<open>
  C8. When the keys at the two cursors of the forward pass mismatch, the pass continues
  from the cursors \<open>i1'\<close> and \<open>i2'\<close> of \<open>mismatch_step\<close>. The left cursor has
  moved forward to the first index from \<open>i1\<close> on whose key occurs among the entries
  \<open>i2, ..., i2 + 49\<close> of the right list, or to the end of the left list when there is
  none; the right cursor has moved in the same way against the entries
  \<open>i1', ..., i1' + 49\<close> of the left list.
\<close>

theorem mismatch_step_extends_cursors:
  assumes "i1 < length cfg1" and "i2 < length cfg2" and "reg (cfg1 ! i1) \<noteq> reg (cfg2 ! i2)"
    and "mismatch_step cfg1 cfg2 i1 i2 = (i1', i2')"
  shows "relocate_blocks cfg1 cfg2 i1 i2 blocks
       = relocate_blocks cfg1 cfg2 i1' i2' (blocks @ display_block i1 i1' i2 i2') \<and>
     i1 \<le> i1' \<and> i1' \<le> length cfg1 \<and>
     (\<forall>m. i1 \<le> m \<and> m < i1' \<longrightarrow>
        \<not> (\<exists>j. i2 \<le> j \<and> j < i2 + 50 \<and> j < length cfg2 \<and> reg (cfg2 ! j) = reg (cfg1 ! m))) \<and>
     (i1' < length cfg1 \<longrightarrow>
        (\<exists>j. i2 \<le> j \<and> j < i2 + 50 \<and> j < length cfg2 \<and> reg (cfg2 ! j) = reg (cfg1 ! i1'))) \<and>
     i2 \<le> i2' \<and> i2' \<le> length cfg2 \<and>
     (\<forall>m. i2 \<le> m \<and> m < i2' \<longrightarrow>
        \<not> (\<exists>j. i1' \<le> j \<and> j < i1' + 50 \<and> j < length cfg1 \<and> reg (cfg1 ! j) = reg (cfg2 ! m))) \<and>
     (i2' < length cfg2 \<longrightarrow>
        (\<exists>j. i1' \<le> j \<and> j < i1' + 50 \<and> j < length cfg1 \<and> reg (cfg1 ! j) = reg (cfg2 ! i2')))"
proof -
  from assms(4) have i1': "i1' = scan_block cfg1 cfg2 i1 i2"
    and i2': "i2' = scan_block cfg2 cfg1 i2 i1'"
    by (auto simp: mismatch_step_def Let_def)
  have "relocate_blocks cfg1 cfg2 i1 i2 blocks
       = relocate_blocks cfg1 cfg2 i1' i2' (blocks @ display_block i1 i1' i2 i2')"
    using assms by (rule relocate_blocks_mismatch)
  moreover have "i1 \<le> i1'" and "i2 \<le> i2'"
    unfolding i1' i2' by (rule scan_block_ge)+
  moreover have "i1' \<le> length cfg1" and "i2' \<le> length cfg2"
    unfolding i1' i2' using assms(1,2) by (simp_all add: scan_block_le)
  moreover have "\<not> found_soon (reg (cfg1 ! m)) cfg2 i2" if "i1 \<le> m \<and> m < i1'" for m
    using that scan_block_skipped [of i1 m cfg1 cfg2 i2] unfolding i1' by blast
  moreover have "\<not> found_soon (reg (cfg2 ! m)) cfg1 i1'" if "i2 \<le> m \<and> m < i2'" for m
    using that scan_block_skipped [of i2 m cfg2 cfg1 i1'] unfolding i2' by blast
  moreover have "found_soon (reg (cfg1 ! i1')) cfg2 i2" if "i1' < length cfg1"
    using that unfolding i1' by (rule scan_block_stops)
  moreover have "found_soon (reg (cfg2 ! i2')) cfg1 i1'" if "i2' < length cfg2"
    using that unfolding i2' by (rule scan_block_stops)
  ultimately show ?thesis
    unfolding found_soon_iff by blast
qed

theorem mismatch_step_extends_cursors_witness:
  "(1::nat) < length [\<lparr>reg = 0x10, val = 1 :: 32 word\<rparr>, \<lparr>reg = 0x10, val = 2\<rparr>, \<lparr>reg = 0x20, val = 3\<rparr>] \<and>
   (1::nat) < length [\<lparr>reg = 0x10, val = 1 :: 32 word\<rparr>, \<lparr>reg = 0x20, val = 3\<rparr>, \<lparr>reg = 0x20, val = 4\<rparr>] \<and>
   reg ([\<lparr>reg = 0x10, val = 1 :: 32 word\<rparr>, \<lparr>reg = 0x10, val = 2\<rparr>, \<lparr>reg = 0x20, val = 3\<rparr>] ! 1)
     \<noteq> reg ([\<lparr>reg = 0x10, val = 1 :: 32 word\<rparr>, \<lparr>reg = 0x20, val = 3\<rparr>, \<lparr>reg = 0x20, val = 4\<rparr>] ! 1) \<and>
   mismatch_step [\<lparr>reg = 0x10, val = 1 :: 32 word\<rparr>, \<lparr>reg = 0x10, val = 2\<rparr>, \<lparr>reg = 0x20, val = 3\<rparr>]
     [\<lparr>reg = 0x10, val = 1\<rparr>, \<lparr>reg = 0x20, val = 3\<rparr>, \<lparr>reg = 0x20, val = 4\<rparr>] 1 1 = (2, 1) \<and>
   relocate_blocks [\<lparr>reg = 0x10, val = 1 :: 32 word\<rparr>, \<lparr>reg = 0x10, val = 2\<rparr>, \<lparr>reg = 0x20, val = 3\<rparr>]
     [\<lparr>reg = 0x10, val = 1\<rparr>, \<lparr>reg = 0x20, val = 3\<rparr>, \<lparr>reg = 0x20, val = 4\<rparr>] 1 1 []
     = relocate_blocks [\<lparr>reg = 0x10, val = 1 :: 32 word\<rparr>, \<lparr>reg = 0x10, val = 2\<rparr>, \<lparr>reg = 0x20, val = 3\<rparr>]
     [\<lparr>reg = 0x10, val = 1\<rparr>, \<lparr>reg = 0x20, val = 3\<rparr>, \<lparr>reg = 0x20, val = 4\<rparr>] 2 1 [LeftOnly 1 2]"
proof -
  let ?L = "[\<lparr>reg = 0x10, val = 1 :: 32 word\<rparr>, \<lparr>reg = 0x10, val = 2\<rparr>, \<lparr>reg = 0x20, val = 3\<rparr>]"
  let ?R = "[\<lparr>reg = 0x10, val = 1 :: 32 word\<rparr>, \<lparr>reg = 0x20, val = 3\<rparr>, \<lparr>reg = 0x20, val = 4\<rparr>]"
  have h1: "1 < length ?L" by simp
  have h2: "1 < length ?R" by simp
  have h3: "reg (?L ! 1) \<noteq> reg (?R ! 1)" by simp
  have h4: "mismatch_step ?L ?R 1 1 = (2, 1)"
    by (simp add: mismatch_step_def scan_block.simps found_soon_def)
  show ?thesis
    using mismatch_step_extends_cursors [OF h1 h2 h3 h4, of "[]"] h4
    by (simp add: display_block_def)
qed

section \<open>Value Comparator: the reported difference count\<close>

lemma count_value_diffs_zip:
  "length cfg1 = length cfg2 \<Longrightarrow>
   count_value_diffs cfg1 cfg2 = int (length (filter (\<lambda>(c, d). val c \<noteq> val d) (zip cfg1 cfg2)))"
  by (induction cfg1 cfg2 rule: list_induct2) auto

lemma first_match_differs_find:
  "first_match_differs c cfg2 \<longleftrightarrow>
   (\<exists>d. find (\<lambda>d. reg d = reg c) cfg2 = Some d \<and> val c \<noteq> val d)"
  by (induction cfg2) auto

lemma count_reordered_diffs_filter:
  "count_reordered_diffs cfg1 cfg2 = int (length (filter (\<lambda>c. first_match_differs c cfg2) cfg1))"
  by (induction cfg1) auto

lemma unique_key:
  assumes "distinct (map reg cfg)" and "d \<in> set cfg" and "d' \<in> set cfg" and "reg d = reg d'"
  shows "d = d'"
  using assms by (meson distinct_map inj_onD)

lemma first_match_differs_distinct:
  "distinct (map reg cfg2) \<Longrightarrow>
   first_match_differs c cfg2 \<longleftrightarrow> (\<exists>d\<in>set cfg2. reg d = reg c \<and> val d \<noteq> val c)"
proof (induction cfg2)
  case Nil
  show ?case by simp
next
  case (Cons e es)
  from Cons.prems have fresh: "\<forall>d\<in>set es. reg d \<noteq> reg e" and dist: "distinct (map reg es)"
    by (auto simp: image_iff)
  show ?case
  proof (cases "reg c = reg e")
    case True
    with fresh have "\<forall>d\<in>set es. reg d \<noteq> reg c" by simp
    with True show ?thesis by auto
  next
    case False
    then have "first_match_differs c (e # es) = first_match_differs c es" by simp
    also have "\<dots> \<longleftrightarrow> (\<exists>d\<in>set es. reg d = reg c \<and> val d \<noteq> val c)"
      using dist by (rule Cons.IH)
    also have "\<dots> \<longleftrightarrow> (\<exists>d\<in>set (e # es). reg d = reg c \<and> val d \<noteq> val c)"
      using False by auto
    finally show ?thesis .
  qed
qed

lemma count_value_diffs_distinct:
  assumes "length xs = length ys" and "map reg xs = map reg ys"
    and "set ys \<subseteq> set cfg2" and "distinct (map reg cfg2)"
  shows "count_value_diffs xs ys
     = int (length (filter (\<lambda>c. \<exists>d\<in>set cfg2. reg d = reg c \<and> val d \<noteq> val c) xs))"
  using assms
proof (induction xs ys rule: list_induct2)
  case Nil
  then show ?case by simp
next
  case (Cons x xs y ys)
  then have y: "y \<in> set cfg2" and xy: "reg x = reg y" by auto
  have "(\<exists>d\<in>set cfg2. reg d = reg x \<and> val d \<noteq> val x) \<longleftrightarrow> val x \<noteq> val y"
  proof
    assume "\<exists>d\<in>set cfg2. reg d = reg x \<and> val d \<noteq> val x"
    then obtain d where d: "d \<in> set cfg2" "reg d = reg x" "val d \<noteq> val x" by blast
    with xy y Cons.prems(3) have "d = y" by (auto intro: unique_key)
    with d show "val x \<noteq> val y" by auto
  next
    assume "val x \<noteq> val y"
    with y xy show "\<exists>d\<in>set cfg2. reg d = reg x \<and> val d \<noteq> val x" by auto
  qed
  moreover have "count_value_diffs xs ys
     = int (length (filter (\<lambda>c. \<exists>d\<in>set cfg2. reg d = reg c \<and> val d \<noteq> val c) xs))"
    using Cons by simp
  ultimately show ?case by simp
qed

lemma length_differing_keys:
  assumes "distinct (map reg cfg1)"
  shows "length (differing_keys cfg1 cfg2)
     = length (filter (\<lambda>c. \<exists>d\<in>set cfg2. reg d = reg c \<and> val d \<noteq> val c) cfg1)"
proof -
  have "distinct (map reg (filter (\<lambda>c. list_ex (\<lambda>d. reg d = reg c \<and> val d \<noteq> val c) cfg2) cfg1))"
    using assms by (rule distinct_map_filter)
  then show ?thesis
    by (simp add: differing_keys_def list_ex_iff distinct_remdups_id)
qed

lemma distinct_same_keys:
  assumes "distinct (map reg cfg1)" and "length cfg1 = length cfg2"
    and "reg ` set cfg1 = reg ` set cfg2"
  shows "distinct (map reg cfg2)"
proof -
  have "card (set (map reg cfg2)) = card (set (map reg cfg1))"
    using assms(3) by simp
  also have "\<dots> = length (map reg cfg1)"
    using assms(1) by (rule distinct_card)
  finally have "card (set (map reg cfg2)) = length (map reg cfg2)"
    using assms(2) by simp
  then show ?thesis by (rule card_distinct)
qed

lemma compare_equal_length:
  assumes "length cfg1 = length cfg2"
  shows "compare_ddrc_cfg_arrays malloc_ok cfg1 cfg2 diff_count_p =
     (if same_order cfg1 cfg2
        then Some (0, store_diff_count diff_count_p (count_value_diffs cfg1 cfg2))
      else if \<not> all_present cfg1 cfg2 then Some (- 1, diff_count_p)
      else (case relocate_blocks cfg1 cfg2 0 0 [] of
              None \<Rightarrow> None
            | Some trace \<Rightarrow>
                Some (1, store_diff_count diff_count_p (count_reordered_diffs cfg1 cfg2))))"
  using assms by (subst compare_ddrc_cfg_arrays.simps) simp

text \<open>
  C4, as the code has it. When the comparator returns 0 or 1, the lists have the same
  length and the same set of keys, so no key is present on one side only. With the
  result 0 the stored count is the number of positions at which the two values differ;
  with the result 1 it is the number of left entries whose value differs from the
  value of the first right entry with the same key. An entry is counted at every
  position it occurs at. When the keys of the left list are pairwise distinct, the
  count is the number of distinct keys whose values differ.
\<close>

theorem diff_count_reported:
  assumes "compare_ddrc_cfg_arrays malloc_ok cfg1 cfg2 diff_count_p = Some (r, d)"
    and "r = 0 \<or> r = 1"
  shows "length cfg1 = length cfg2 \<and> reg ` set cfg1 = reg ` set cfg2 \<and>
    (r = 0 \<longrightarrow> d = map_option
       (\<lambda>_. int (length (filter (\<lambda>(c, c'). val c \<noteq> val c') (zip cfg1 cfg2)))) diff_count_p) \<and>
    (r = 1 \<longrightarrow> d = map_option
       (\<lambda>_. int (length (filter
          (\<lambda>c. \<exists>c'. find (\<lambda>c'. reg c' = reg c) cfg2 = Some c' \<and> val c \<noteq> val c') cfg1)))
       diff_count_p) \<and>
    (distinct (map reg cfg1) \<longrightarrow>
       d = map_option (\<lambda>_. int (length (differing_keys cfg1 cfg2))) diff_count_p)"
proof -
  have len: "length cfg1 = length cfg2"
  proof (rule ccontr)
    assume "length cfg1 \<noteq> length cfg2"
    from compare_length_mismatch_code [OF this assms(1)] assms(2) show False by simp
  qed
  have eq: "(if same_order cfg1 cfg2
        then Some (0, store_diff_count diff_count_p (count_value_diffs cfg1 cfg2))
      else if \<not> all_present cfg1 cfg2 then Some (- 1, diff_count_p)
      else (case relocate_blocks cfg1 cfg2 0 0 [] of
              None \<Rightarrow> None
            | Some trace \<Rightarrow>
                Some (1, store_diff_count diff_count_p (count_reordered_diffs cfg1 cfg2))))
     = Some (r, d)"
    using assms(1) compare_equal_length [OF len, of malloc_ok diff_count_p] by simp
  show ?thesis
  proof (cases "same_order cfg1 cfg2")
    case True
    with eq have r: "r = 0"
      and d: "d = store_diff_count diff_count_p (count_value_diffs cfg1 cfg2)"
      by auto
    from True len have keys: "map reg cfg1 = map reg cfg2"
      by (simp add: same_order_iff)
    then have sets: "reg ` set cfg1 = reg ` set cfg2"
      by (metis set_map)
    have "count_value_diffs cfg1 cfg2 = int (length (differing_keys cfg1 cfg2))"
      if dist: "distinct (map reg cfg1)"
    proof -
      from dist keys have "distinct (map reg cfg2)" by simp
      with len keys show ?thesis
        by (simp add: count_value_diffs_distinct [of cfg1 cfg2 cfg2] length_differing_keys [OF dist])
    qed
    with r d len sets show ?thesis
      by (simp add: store_diff_count_def count_value_diffs_zip)
  next
    case False
    with eq assms(2) have ap: "all_present cfg1 cfg2" and r: "r = 1"
      and d: "d = store_diff_count diff_count_p (count_reordered_diffs cfg1 cfg2)"
      by (auto split: if_splits option.splits)
    from ap have sets: "reg ` set cfg1 = reg ` set cfg2"
      by (simp add: all_present_iff)
    have "count_reordered_diffs cfg1 cfg2 = int (length (differing_keys cfg1 cfg2))"
      if dist: "distinct (map reg cfg1)"
    proof -
      from dist len sets have "distinct (map reg cfg2)" by (rule distinct_same_keys)
      then show ?thesis
        by (simp add: count_reordered_diffs_filter first_match_differs_distinct
            length_differing_keys [OF dist])
    qed
    with r d len sets show ?thesis
      by (simp add: store_diff_count_def count_reordered_diffs_filter first_match_differs_find)
  qed
qed

theorem diff_count_reported_witness:
  "compare_ddrc_cfg_arrays True
     [\<lparr>reg = 0x10, val = 1\<rparr>, \<lparr>reg = 0x20, val = 2\<rparr>]
     [\<lparr>reg = 0x10, val = 9\<rparr>, \<lparr>reg = 0x20, val = 2\<rparr>] (Some 0) = Some (0, Some 1) \<and>
   distinct (map reg [\<lparr>reg = 0x10, val = 1 :: 32 word\<rparr>, \<lparr>reg = 0x20, val = 2\<rparr>]) \<and>
   length (differing_keys [\<lparr>reg = 0x10, val = 1 :: 32 word\<rparr>, \<lparr>reg = 0x20, val = 2\<rparr>]
     [\<lparr>reg = 0x10, val = 9\<rparr>, \<lparr>reg = 0x20, val = 2\<rparr>]) = 1 \<and>
   compare_ddrc_cfg_arrays True
     [\<lparr>reg = 0x10, val = 1\<rparr>, \<lparr>reg = 0x10, val = 1\<rparr>, \<lparr>reg = 0x20, val = 2\<rparr>]
     [\<lparr>reg = 0x10, val = 9\<rparr>, \<lparr>reg = 0x20, val = 2\<rparr>, \<lparr>reg = 0x20, val = 2\<rparr>] (Some 0)
     = Some (1, Some 2) \<and>
   length (filter (\<lambda>c. \<exists>c'. find (\<lambda>c'. reg c' = reg c)
       [\<lparr>reg = 0x10, val = 9 :: 32 word\<rparr>, \<lparr>reg = 0x20, val = 2\<rparr>, \<lparr>reg = 0x20, val = 2\<rparr>] = Some c'
         \<and> val c \<noteq> val c')
     [\<lparr>reg = 0x10, val = 1 :: 32 word\<rparr>, \<lparr>reg = 0x10, val = 1\<rparr>, \<lparr>reg = 0x20, val = 2\<rparr>]) = 2"
proof -
  have h1: "compare_ddrc_cfg_arrays True
     [\<lparr>reg = 0x10, val = 1\<rparr>, \<lparr>reg = 0x20, val = 2\<rparr>]
     [\<lparr>reg = 0x10, val = 9\<rparr>, \<lparr>reg = 0x20, val = 2\<rparr>] (Some 0) = Some (0, Some 1)"
    by (simp add: compare_ddrc_cfg_arrays.simps store_diff_count_def)
  have h2: "compare_ddrc_cfg_arrays True
     [\<lparr>reg = 0x10, val = 1\<rparr>, \<lparr>reg = 0x10, val = 1\<rparr>, \<lparr>reg = 0x20, val = 2\<rparr>]
     [\<lparr>reg = 0x10, val = 9\<rparr>, \<lparr>reg = 0x20, val = 2\<rparr>, \<lparr>reg = 0x20, val = 2\<rparr>] (Some 0)
     = Some (1, Some 2)"
    by (simp add: compare_ddrc_cfg_arrays.simps store_diff_count_def all_present_def
        relocate_blocks.simps skip_matching.simps mismatch_step_def scan_block.simps
        found_soon_def display_block_def)
  have r0: "(0::int) = 0 \<or> (0::int) = 1" and r1: "(1::int) = 0 \<or> (1::int) = 1"
    by simp_all
  show ?thesis
    using diff_count_reported [OF h1 r0] diff_count_reported [OF h2 r1] h1 h2
    by simp
qed

text \<open>
  C4, as stated: the difference count is to be the number of distinct keys whose values
  differ, each key counted once. In the first pair of lists the key 0x10 occurs twice
  with a different value each time: the comparator returns 0 with the count 2, for one
  differing key. In the second pair it returns 1 with the count 2, again for the one
  differing key 0x10.
\<close>

theorem diff_count_reported_counterexample:
  "compare_ddrc_cfg_arrays True
     [\<lparr>reg = 0x10, val = 1\<rparr>, \<lparr>reg = 0x10, val = 2\<rparr>]
     [\<lparr>reg = 0x10, val = 3\<rparr>, \<lparr>reg = 0x10, val = 4\<rparr>] (Some 0) = Some (0, Some 2) \<and>
   length (differing_keys
     [\<lparr>reg = 0x10, val = 1 :: 32 word\<rparr>, \<lparr>reg = 0x10, val = 2\<rparr>]
     [\<lparr>reg = 0x10, val = 3\<rparr>, \<lparr>reg = 0x10, val = 4\<rparr>]) = 1 \<and>
   compare_ddrc_cfg_arrays True
     [\<lparr>reg = 0x10, val = 1\<rparr>, \<lparr>reg = 0x10, val = 1\<rparr>, \<lparr>reg = 0x20, val = 2\<rparr>]
     [\<lparr>reg = 0x10, val = 9\<rparr>, \<lparr>reg = 0x20, val = 2\<rparr>, \<lparr>reg = 0x20, val = 2\<rparr>] (Some 0)
     = Some (1, Some 2) \<and>
   length (differing_keys
     [\<lparr>reg = 0x10, val = 1 :: 32 word\<rparr>, \<lparr>reg = 0x10, val = 1\<rparr>, \<lparr>reg = 0x20, val = 2\<rparr>]
     [\<lparr>reg = 0x10, val = 9\<rparr>, \<lparr>reg = 0x20, val = 2\<rparr>, \<lparr>reg = 0x20, val = 2\<rparr>]) = 1"
  by (simp add: compare_ddrc_cfg_arrays.simps store_diff_count_def all_present_def
      relocate_blocks.simps skip_matching.simps mismatch_step_def scan_block.simps
      found_soon_def display_block_def differing_keys_def)

section \<open>Duplicate Scanner: the groups it returns\<close>

lemma collect_duplicates_spec:
  "collect_duplicates cfg i js (d, processed) =
     (d\<lparr>dup_indices := dup_indices d
          @ take (64 - dup_count d) (filter (\<lambda>j. reg (cfg ! j) = reg (cfg ! i)) js),
        dup_values := dup_values d
          @ map (\<lambda>j. ucast (val (cfg ! j)))
              (take (64 - dup_count d) (filter (\<lambda>j. reg (cfg ! j) = reg (cfg ! i)) js)),
        dup_count := dup_count d
          + length (take (64 - dup_count d) (filter (\<lambda>j. reg (cfg ! j) = reg (cfg ! i)) js))\<rparr>,
      mark (take (64 - dup_count d) (filter (\<lambda>j. reg (cfg ! j) = reg (cfg ! i)) js)) processed)"
proof (induction js arbitrary: d processed)
  case Nil
  show ?case by (simp add: mark_def)
next
  case (Cons j js)
  show ?case
  proof (cases "reg (cfg ! i) = reg (cfg ! j) \<and> dup_count d < 64")
    case True
    then obtain m where m: "64 - dup_count d = Suc m" and m': "64 - (dup_count d + 1) = m"
      by (cases "64 - dup_count d") auto
    from True have "collect_duplicates cfg i (j # js) (d, processed) =
      collect_duplicates cfg i js
             (d\<lparr>dup_indices := dup_indices d @ [j],
                dup_values := dup_values d @ [ucast (val (cfg ! j))],
                dup_count := dup_count d + 1\<rparr>,
              processed[j := True])"
      by simp
    also note Cons.IH
    finally show ?thesis
      using True m m' by (simp add: mark_def)
  next
    case False
    then have "collect_duplicates cfg i (j # js) (d, processed) =
      collect_duplicates cfg i js (d, processed)"
      by auto
    also note Cons.IH
    finally show ?thesis
      using False by (cases "reg (cfg ! i) = reg (cfg ! j)") (auto simp: mark_def)
  qed
qed

lemma collect_duplicates_leader:
  "collect_duplicates cfg i [Suc i ..< length cfg]
     (\<lparr>dup_reg = reg (cfg ! i), dup_indices = [i],
       dup_values = [ucast (val (cfg ! i))], dup_count = 1\<rparr>, processed)
   = (group_at cfg i, mark (followers cfg i) processed)"
  by (simp add: collect_duplicates_spec group_at_def followers_def)

lemma find_duplicates_loop_group:
  assumes "i < length cfg" and "int (length dups) < max_dups" and "\<not> processed ! i"
  shows "find_duplicates_loop cfg max_dups i processed dups =
     (if followers cfg i \<noteq> []
      then find_duplicates_loop cfg max_dups (Suc i) (mark (followers cfg i) processed)
             (dups @ [group_at cfg i])
      else find_duplicates_loop cfg max_dups (Suc i) processed dups)"
proof -
  have c: "dup_count (group_at cfg i) > 1 \<longleftrightarrow> followers cfg i \<noteq> []"
    by (simp add: group_at_def)
  have m: "followers cfg i = [] \<Longrightarrow> mark (followers cfg i) processed = processed"
    by (simp add: mark_def)
  show ?thesis
    unfolding find_duplicates_loop_leader [OF assms] collect_duplicates_leader Let_def fst_conv
      snd_conv c
    using m by simp
qed

lemma length_mark: "length (mark js processed) = length processed"
  unfolding mark_def by (induction js arbitrary: processed) auto

lemma nth_mark:
  "x < length processed \<Longrightarrow> mark js processed ! x \<longleftrightarrow> processed ! x \<or> x \<in> set js"
proof (induction js arbitrary: processed)
  case Nil
  show ?case by (simp add: mark_def)
next
  case (Cons j js)
  have "mark (j # js) processed = mark js (processed[j := True])"
    by (simp add: mark_def)
  moreover have "mark js (processed[j := True]) ! x
      \<longleftrightarrow> (processed[j := True]) ! x \<or> x \<in> set js"
    using Cons.prems by (intro Cons.IH) simp
  moreover have "(processed[j := True]) ! x \<longleftrightarrow> x = j \<or> processed ! x"
    using Cons.prems by (cases "x = j") auto
  ultimately show ?case by auto
qed

lemma occurrences_mem: "j \<in> set (occurrences cfg K) \<longleftrightarrow> j < length cfg \<and> reg (cfg ! j) = K"
  by (auto simp: occurrences_def)

lemma occurrences_sorted: "sorted_wrt (<) (occurrences cfg K)"
  unfolding occurrences_def by (rule sorted_wrt_filter) simp

lemma hd_occurrences_mem: "occurrences cfg K \<noteq> [] \<Longrightarrow> hd (occurrences cfg K) \<in> set (occurrences cfg K)"
  by simp

lemma hd_occurrences_le:
  assumes "j \<in> set (occurrences cfg K)"
  shows "hd (occurrences cfg K) \<le> j"
proof (cases "occurrences cfg K")
  case Nil
  with assms show ?thesis by simp
next
  case (Cons a as)
  with occurrences_sorted [of cfg K] have "\<forall>x\<in>set as. a < x" by simp
  with Cons assms show ?thesis by auto
qed

lemma hd_occurrences_key:
  assumes "j < length cfg"
  shows "hd (occurrences cfg (reg (cfg ! j))) < length cfg"
    and "reg (cfg ! hd (occurrences cfg (reg (cfg ! j)))) = reg (cfg ! j)"
    and "hd (occurrences cfg (reg (cfg ! j))) \<le> j"
proof -
  from assms have j: "j \<in> set (occurrences cfg (reg (cfg ! j)))"
    by (simp add: occurrences_mem)
  then have "occurrences cfg (reg (cfg ! j)) \<noteq> []" by auto
  then have "hd (occurrences cfg (reg (cfg ! j))) \<in> set (occurrences cfg (reg (cfg ! j)))"
    by (rule hd_occurrences_mem)
  then show "hd (occurrences cfg (reg (cfg ! j))) < length cfg"
    and "reg (cfg ! hd (occurrences cfg (reg (cfg ! j)))) = reg (cfg ! j)"
    by (simp_all add: occurrences_mem)
  from j show "hd (occurrences cfg (reg (cfg ! j))) \<le> j"
    by (rule hd_occurrences_le)
qed

lemma occurrences_split:
  assumes "i < length cfg" and "hd (occurrences cfg (reg (cfg ! i))) = i"
  shows "occurrences cfg (reg (cfg ! i))
     = i # filter (\<lambda>j. reg (cfg ! j) = reg (cfg ! i)) [Suc i ..< length cfg]"
proof -
  have "filter (\<lambda>j. reg (cfg ! j) = reg (cfg ! i)) [0 ..< i] = []"
  proof (rule ccontr)
    assume "filter (\<lambda>j. reg (cfg ! j) = reg (cfg ! i)) [0 ..< i] \<noteq> []"
    then obtain j where "j < i" and "reg (cfg ! j) = reg (cfg ! i)"
      by (auto simp: filter_empty_conv)
    with assms(1) have "j \<in> set (occurrences cfg (reg (cfg ! i)))"
      by (simp add: occurrences_mem)
    then have "i \<le> j" using hd_occurrences_le [of j cfg "reg (cfg ! i)"] assms(2) by simp
    with \<open>j < i\<close> show False by simp
  qed
  moreover have "[0 ..< length cfg] = [0 ..< i] @ i # [Suc i ..< length cfg]"
    using assms(1) by (metis less_imp_le_nat upt_add_eq_append upt_conv_Cons le0 le_add_diff_inverse plus_nat.add_0)
  ultimately show ?thesis
    by (simp add: occurrences_def)
qed

lemma followers_first:
  assumes "i < length cfg" and "hd (occurrences cfg (reg (cfg ! i))) = i"
    and "length (occurrences cfg (reg (cfg ! i))) \<le> 64"
  shows "i # followers cfg i = occurrences cfg (reg (cfg ! i))"
proof -
  from assms(3) have "length (filter (\<lambda>j. reg (cfg ! j) = reg (cfg ! i)) [Suc i ..< length cfg]) \<le> 63"
    by (simp add: occurrences_split [OF assms(1,2)])
  then show ?thesis
    by (simp add: followers_def occurrences_split [OF assms(1,2)])
qed

lemma followers_set:
  "j \<in> set (followers cfg i) \<Longrightarrow> i < j \<and> j < length cfg \<and> reg (cfg ! j) = reg (cfg ! i)"
  unfolding followers_def by (auto dest!: in_set_takeD)

lemma followers_repeated:
  assumes "followers cfg i \<noteq> []" and "i < length cfg"
  shows "1 < length (occurrences cfg (reg (cfg ! i)))"
proof -
  from assms(1) obtain j where "j \<in> set (followers cfg i)" by (cases "followers cfg i") auto
  then have j: "i < j" "j < length cfg" "reg (cfg ! j) = reg (cfg ! i)"
    by (auto dest: followers_set)
  with assms(2) have "{i, j} \<subseteq> set (occurrences cfg (reg (cfg ! i)))"
    by (simp add: occurrences_mem)
  then have "card {i, j} \<le> card (set (occurrences cfg (reg (cfg ! i))))"
    by (intro card_mono) simp_all
  also have "\<dots> \<le> length (occurrences cfg (reg (cfg ! i)))"
    by (rule card_length)
  finally show ?thesis using j(1) by simp
qed

lemma group_at_first:
  assumes "occurrences cfg K \<noteq> []" and "length (occurrences cfg K) \<le> 64"
  shows "group_at cfg (hd (occurrences cfg K)) =
     \<lparr>dup_reg = K, dup_indices = occurrences cfg K,
      dup_values = map (\<lambda>j. ucast (val (cfg ! j))) (occurrences cfg K),
      dup_count = length (occurrences cfg K)\<rparr>"
proof -
  let ?i = "hd (occurrences cfg K)"
  from assms(1) have "?i \<in> set (occurrences cfg K)" by simp
  then have i: "?i < length cfg" and k: "reg (cfg ! ?i) = K"
    by (simp_all add: occurrences_mem)
  from followers_first [of ?i cfg] i k assms(2)
  have f: "?i # followers cfg ?i = occurrences cfg K" by simp
  then have "Suc (length (followers cfg ?i)) = length (occurrences cfg K)"
    by (metis length_Cons)
  with f k show ?thesis
    by (simp add: group_at_def)
qed

lemma leader_is_first:
  assumes "scan_inv cfg i processed" and "i < length cfg" and "\<not> processed ! i"
    and "length (occurrences cfg (reg (cfg ! i))) \<le> 64"
  shows "hd (occurrences cfg (reg (cfg ! i))) = i"
proof -
  from assms have "\<not> (hd (occurrences cfg (reg (cfg ! i))) < i
      \<and> i \<noteq> hd (occurrences cfg (reg (cfg ! i))))"
    by (simp add: scan_inv_def)
  moreover have "hd (occurrences cfg (reg (cfg ! i))) \<le> i"
    using assms(2) by (rule hd_occurrences_key)
  ultimately show ?thesis by auto
qed

lemma skipped_not_first:
  assumes "scan_inv cfg i processed" and "i < length cfg" and "processed ! i"
    and "length (occurrences cfg K) \<le> 64" and "occurrences cfg K \<noteq> []"
  shows "hd (occurrences cfg K) \<noteq> i"
proof
  assume h: "hd (occurrences cfg K) = i"
  with assms(5) have "i \<in> set (occurrences cfg K)" by (metis hd_occurrences_mem)
  then have "reg (cfg ! i) = K" by (simp add: occurrences_mem)
  with assms(1,2,4) h have "\<not> processed ! i" by (simp add: scan_inv_def)
  with assms(3) show False by simp
qed

lemma scan_inv_skip:
  assumes "scan_inv cfg i processed" and "i < length cfg" and "processed ! i"
  shows "scan_inv cfg (Suc i) processed"
  unfolding scan_inv_def
proof (intro conjI allI impI)
  show "length processed = length cfg"
    using assms(1) by (simp add: scan_inv_def)
next
  fix j
  assume j: "j < length cfg" and small: "length (occurrences cfg (reg (cfg ! j))) \<le> 64"
  let ?p = "hd (occurrences cfg (reg (cfg ! j)))"
  from j have "occurrences cfg (reg (cfg ! j)) \<noteq> []"
    using occurrences_mem [of j cfg "reg (cfg ! j)"] by auto
  with assms small have "?p \<noteq> i" by (intro skipped_not_first)
  then have "?p < Suc i \<longleftrightarrow> ?p < i" by auto
  moreover from assms(1) j small have "processed ! j \<longleftrightarrow> ?p < i \<and> j \<noteq> ?p"
    by (simp add: scan_inv_def)
  ultimately show "processed ! j \<longleftrightarrow> ?p < Suc i \<and> j \<noteq> ?p" by simp
qed

lemma scan_inv_leader:
  assumes "scan_inv cfg i processed" and "i < length cfg" and "\<not> processed ! i"
  shows "scan_inv cfg (Suc i) (mark (followers cfg i) processed)"
  unfolding scan_inv_def
proof (intro conjI allI impI)
  from assms(1) have len: "length processed = length cfg"
    by (simp add: scan_inv_def)
  then show "length (mark (followers cfg i) processed) = length cfg"
    by (simp add: length_mark)
  fix j
  assume j: "j < length cfg" and small: "length (occurrences cfg (reg (cfg ! j))) \<le> 64"
  let ?p = "hd (occurrences cfg (reg (cfg ! j)))"
  from j len have m: "mark (followers cfg i) processed ! j
      \<longleftrightarrow> processed ! j \<or> j \<in> set (followers cfg i)"
    by (simp add: nth_mark)
  from assms(1) j small have inv: "processed ! j \<longleftrightarrow> ?p < i \<and> j \<noteq> ?p"
    by (simp add: scan_inv_def)
  show "mark (followers cfg i) processed ! j \<longleftrightarrow> ?p < Suc i \<and> j \<noteq> ?p"
  proof (cases "reg (cfg ! j) = reg (cfg ! i)")
    case False
    then have "j \<notin> set (followers cfg i)"
      by (auto dest: followers_set)
    moreover from j have "reg (cfg ! ?p) = reg (cfg ! j)" by (rule hd_occurrences_key)
    with False have "?p \<noteq> i" by auto
    then have "?p < Suc i \<longleftrightarrow> ?p < i" by auto
    ultimately show ?thesis using m inv by simp
  next
    case True
    with small have small_i: "length (occurrences cfg (reg (cfg ! i))) \<le> 64" by simp
    with assms have p: "hd (occurrences cfg (reg (cfg ! i))) = i" by (rule leader_is_first)
    with True have pj: "?p = i" by simp
    from followers_first [OF assms(2) p small_i]
    have "set (occurrences cfg (reg (cfg ! i))) = insert i (set (followers cfg i))"
      by (metis list.simps(15))
    moreover from j True have "j \<in> set (occurrences cfg (reg (cfg ! i)))"
      by (simp add: occurrences_mem)
    moreover have "i \<notin> set (followers cfg i)"
      by (auto dest: followers_set)
    ultimately have "j \<in> set (followers cfg i) \<longleftrightarrow> j \<noteq> i" by auto
    with m inv pj show ?thesis by auto
  qed
qed

lemma scan_inv_init: "scan_inv cfg 0 (replicate (length cfg) False)"
  by (simp add: scan_inv_def)

lemma leaders_ok_Suc: "leaders_ok cfg (Suc i) ls \<Longrightarrow> leaders_ok cfg i ls"
  by (auto simp: leaders_ok_def)

lemma leaders_ok_Cons:
  assumes "leaders_ok cfg (Suc i) ls" and "i < length cfg" and "followers cfg i \<noteq> []"
    and "length (occurrences cfg (reg (cfg ! i))) \<le> 64 \<Longrightarrow> hd (occurrences cfg (reg (cfg ! i))) = i"
  shows "leaders_ok cfg i (i # ls)"
  using assms by (auto simp: leaders_ok_def)

lemma complete_from_done: "length cfg \<le> i \<Longrightarrow> complete_from cfg i []"
proof -
  assume n: "length cfg \<le> i"
  have "hd (occurrences cfg K) < length cfg" if "1 < length (occurrences cfg K)" for K
  proof -
    from that have "occurrences cfg K \<noteq> []" by auto
    then have "hd (occurrences cfg K) \<in> set (occurrences cfg K)" by (rule hd_occurrences_mem)
    then show ?thesis by (simp add: occurrences_mem)
  qed
  with n show ?thesis
    by (fastforce simp: complete_from_def)
qed

lemma complete_from_Cons: "complete_from cfg (Suc i) ls \<Longrightarrow> complete_from cfg i (i # ls)"
  unfolding complete_from_def
  by (metis Suc_leI le_neq_implies_less list.set_intros(1) list.set_intros(2))

lemma complete_from_skip:
  assumes "complete_from cfg (Suc i) ls"
    and "\<And>K. 1 < length (occurrences cfg K) \<Longrightarrow> length (occurrences cfg K) \<le> 64
           \<Longrightarrow> hd (occurrences cfg K) \<noteq> i"
  shows "complete_from cfg i ls"
  unfolding complete_from_def
proof (intro allI impI)
  fix K
  assume K: "1 < length (occurrences cfg K) \<and> length (occurrences cfg K) \<le> 64 \<and>
          i \<le> hd (occurrences cfg K)"
  with assms(2) have "hd (occurrences cfg K) \<noteq> i" by blast
  with K have "Suc i \<le> hd (occurrences cfg K)" by auto
  with K assms(1) show "hd (occurrences cfg K) \<in> set ls"
    by (auto simp: complete_from_def)
qed

lemma find_duplicates_loop_spec:
  assumes "scan_inv cfg i processed"
  shows "\<exists>ls. find_duplicates_loop cfg max_dups i processed dups = dups @ map (group_at cfg) ls \<and>
     leaders_ok cfg i ls \<and>
     (int (length (find_duplicates_loop cfg max_dups i processed dups)) < max_dups
        \<longrightarrow> complete_from cfg i ls)"
  using assms
proof (induction "length cfg - i" arbitrary: i processed dups)
  case 0
  then have n: "length cfg \<le> i" by simp
  then have "find_duplicates_loop cfg max_dups i processed dups = dups"
    by (intro find_duplicates_loop_done) simp
  moreover have "leaders_ok cfg i []" by (simp add: leaders_ok_def)
  moreover from n have "complete_from cfg i []" by (rule complete_from_done)
  ultimately show ?case by (intro exI [of _ "[]"]) simp
next
  case (Suc k)
  then have i: "i < length cfg" and k: "k = length cfg - Suc i" by auto
  note inv = Suc.prems
  show ?case
  proof (cases "int (length dups) < max_dups")
    case False
    then have "find_duplicates_loop cfg max_dups i processed dups = dups"
      by (intro find_duplicates_loop_done) simp
    moreover have "leaders_ok cfg i []" by (simp add: leaders_ok_def)
    ultimately show ?thesis using False by (intro exI [of _ "[]"]) simp
  next
    case room: True
    show ?thesis
    proof (cases "processed ! i")
      case True
      from inv i True have inv': "scan_inv cfg (Suc i) processed" by (rule scan_inv_skip)
      from Suc.hyps(1) [OF k inv', of dups] obtain ls where
        ls: "find_duplicates_loop cfg max_dups (Suc i) processed dups = dups @ map (group_at cfg) ls"
        "leaders_ok cfg (Suc i) ls"
        "int (length (find_duplicates_loop cfg max_dups (Suc i) processed dups)) < max_dups
           \<longrightarrow> complete_from cfg (Suc i) ls"
        by blast
      have eq: "find_duplicates_loop cfg max_dups i processed dups
          = find_duplicates_loop cfg max_dups (Suc i) processed dups"
        using i room True by (rule find_duplicates_loop_skip)
      have "complete_from cfg i ls" if "complete_from cfg (Suc i) ls"
        using that
      proof (rule complete_from_skip)
        fix K
        assume "1 < length (occurrences cfg K)" and "length (occurrences cfg K) \<le> 64"
        then show "hd (occurrences cfg K) \<noteq> i"
          using inv i True by (intro skipped_not_first [of cfg i processed K]) auto
      qed
      with ls eq leaders_ok_Suc [OF ls(2)] show ?thesis
        by (intro exI [of _ ls]) simp
    next
      case False
      from inv i False have inv': "scan_inv cfg (Suc i) (mark (followers cfg i) processed)"
        by (rule scan_inv_leader)
      note step = find_duplicates_loop_group [OF i room False]
      show ?thesis
      proof (cases "followers cfg i = []")
        case True
        then have mk: "mark (followers cfg i) processed = processed"
          by (simp add: mark_def)
        from Suc.hyps(1) [OF k inv', of dups] mk obtain ls where
          ls: "find_duplicates_loop cfg max_dups (Suc i) processed dups = dups @ map (group_at cfg) ls"
          "leaders_ok cfg (Suc i) ls"
          "int (length (find_duplicates_loop cfg max_dups (Suc i) processed dups)) < max_dups
             \<longrightarrow> complete_from cfg (Suc i) ls"
          by auto
        from step True have eq: "find_duplicates_loop cfg max_dups i processed dups
            = find_duplicates_loop cfg max_dups (Suc i) processed dups"
          by simp
        have "complete_from cfg i ls" if "complete_from cfg (Suc i) ls"
          using that
        proof (rule complete_from_skip)
          fix K
          assume rep: "1 < length (occurrences cfg K)" and small: "length (occurrences cfg K) \<le> 64"
          show "hd (occurrences cfg K) \<noteq> i"
          proof
            assume h: "hd (occurrences cfg K) = i"
            from rep have "occurrences cfg K \<noteq> []" by auto
            with h have "i \<in> set (occurrences cfg K)" by (metis hd_occurrences_mem)
            then have key: "reg (cfg ! i) = K" by (simp add: occurrences_mem)
            from followers_first [OF i] h key small
            have "i # followers cfg i = occurrences cfg K" by simp
            with True rep show False by (metis length_Cons list.size(3) less_irrefl One_nat_def)
          qed
        qed
        with ls eq leaders_ok_Suc [OF ls(2)] show ?thesis
          by (intro exI [of _ ls]) simp
      next
        case nonempty: False
        from Suc.hyps(1) [OF k inv', of "dups @ [group_at cfg i]"] obtain ls where
          ls: "find_duplicates_loop cfg max_dups (Suc i) (mark (followers cfg i) processed)
                 (dups @ [group_at cfg i]) = (dups @ [group_at cfg i]) @ map (group_at cfg) ls"
          "leaders_ok cfg (Suc i) ls"
          "int (length (find_duplicates_loop cfg max_dups (Suc i) (mark (followers cfg i) processed)
                 (dups @ [group_at cfg i]))) < max_dups
             \<longrightarrow> complete_from cfg (Suc i) ls"
          by blast
        from step nonempty have eq: "find_duplicates_loop cfg max_dups i processed dups
            = find_duplicates_loop cfg max_dups (Suc i) (mark (followers cfg i) processed)
                 (dups @ [group_at cfg i])"
          by simp
        have "leaders_ok cfg i (i # ls)"
          using ls(2) i nonempty
        proof (rule leaders_ok_Cons)
          assume "length (occurrences cfg (reg (cfg ! i))) \<le> 64"
          with inv i False show "hd (occurrences cfg (reg (cfg ! i))) = i"
            by (rule leader_is_first)
        qed
        moreover have "complete_from cfg i (i # ls)" if "complete_from cfg (Suc i) ls"
          using that by (rule complete_from_Cons)
        ultimately show ?thesis
          using ls eq by (intro exI [of _ "i # ls"]) simp
      qed
    qed
  qed
qed

lemma filter_eq_singleton:
  "distinct ls \<Longrightarrow> p \<in> set ls \<Longrightarrow> filter (\<lambda>l. l = p) ls = [p]"
proof (induction ls)
  case Nil
  then show ?case by simp
next
  case (Cons a ls)
  show ?case
  proof (cases "a = p")
    case True
    with Cons.prems have "p \<notin> set ls" by simp
    then have "filter (\<lambda>l. l = p) ls = []" by (auto simp: filter_empty_conv)
    with True show ?thesis by simp
  next
    case False
    with Cons show ?thesis by simp
  qed
qed

lemma find_duplicates_ddrc_leaders:
  "\<exists>ls. find_duplicates_ddrc True cfg max_dups = map (group_at cfg) ls \<and> leaders_ok cfg 0 ls \<and>
     (int (length (find_duplicates_ddrc True cfg max_dups)) < max_dups \<longrightarrow> complete_from cfg 0 ls)"
  using find_duplicates_loop_spec [OF scan_inv_init, of cfg max_dups "[]"]
  by (simp add: find_duplicates_ddrc_def)

lemma group_at_sel:
  "dup_reg (group_at cfg l) = reg (cfg ! l)" "hd (dup_indices (group_at cfg l)) = l"
  by (simp_all add: group_at_def)

text \<open>
  C7, as the code has it. Let the scratch allocation succeed. If the scanner returns
  fewer than \<open>max_dups\<close> groups (its callers pass 100) and the key \<open>K\<close> occurs
  \<open>n\<close> times with \<open>1 < n \<le> 64\<close>, the result holds exactly one group for \<open>K\<close>, with
  all \<open>n\<close> indices and values in list order. The groups are in increasing order of
  their first index, which is the first occurrence of the group's key whenever that key
  occurs at most 64 times. A key that occurs once, or not at all, has no group.
\<close>

theorem find_duplicates_ddrc_groups:
  "(int (length (find_duplicates_ddrc True cfg max_dups)) < max_dups \<and>
    1 < length (occurrences cfg K) \<and> length (occurrences cfg K) \<le> 64 \<longrightarrow>
      filter (\<lambda>g. dup_reg g = K) (find_duplicates_ddrc True cfg max_dups)
        = [\<lparr>dup_reg = K, dup_indices = occurrences cfg K,
            dup_values = map (\<lambda>i. val (cfg ! i)) (occurrences cfg K),
            dup_count = length (occurrences cfg K)\<rparr>]) \<and>
   sorted_wrt (<) (map (\<lambda>g. hd (dup_indices g)) (find_duplicates_ddrc True cfg max_dups)) \<and>
   (\<forall>g\<in>set (find_duplicates_ddrc True cfg max_dups).
      length (occurrences cfg (dup_reg g)) \<le> 64 \<longrightarrow>
        hd (dup_indices g) = hd (occurrences cfg (dup_reg g))) \<and>
   (length (occurrences cfg K') \<le> 1 \<longrightarrow>
      filter (\<lambda>g. dup_reg g = K') (find_duplicates_ddrc True cfg max_dups) = [])"
proof -
  obtain ls where gs: "find_duplicates_ddrc True cfg max_dups = map (group_at cfg) ls"
    and ok: "leaders_ok cfg 0 ls"
    and complete: "int (length (find_duplicates_ddrc True cfg max_dups)) < max_dups
      \<Longrightarrow> complete_from cfg 0 ls"
    using find_duplicates_ddrc_leaders [of cfg max_dups] by blast
  from ok have sorted: "sorted_wrt (<) ls"
    and leader: "\<And>l. l \<in> set ls \<Longrightarrow> l < length cfg \<and> followers cfg l \<noteq> [] \<and>
        (length (occurrences cfg (reg (cfg ! l))) \<le> 64 \<longrightarrow>
           hd (occurrences cfg (reg (cfg ! l))) = l)"
    by (auto simp: leaders_ok_def)
  have filt: "filter (\<lambda>g. dup_reg g = k) (map (group_at cfg) ls)
      = map (group_at cfg) (filter (\<lambda>l. reg (cfg ! l) = k) ls)" for k
    by (simp add: filter_map comp_def group_at_sel)
  have part1: "filter (\<lambda>g. dup_reg g = K) (find_duplicates_ddrc True cfg max_dups)
        = [\<lparr>dup_reg = K, dup_indices = occurrences cfg K,
            dup_values = map (\<lambda>i. val (cfg ! i)) (occurrences cfg K),
            dup_count = length (occurrences cfg K)\<rparr>]"
    if room: "int (length (find_duplicates_ddrc True cfg max_dups)) < max_dups"
      and rep: "1 < length (occurrences cfg K)" and small: "length (occurrences cfg K) \<le> 64"
  proof -
    let ?p = "hd (occurrences cfg K)"
    from rep have ne: "occurrences cfg K \<noteq> []" by auto
    then have "?p \<in> set (occurrences cfg K)" by (rule hd_occurrences_mem)
    then have pk: "reg (cfg ! ?p) = K" by (simp add: occurrences_mem)
    from complete [OF room] rep small have p: "?p \<in> set ls"
      by (simp add: complete_from_def)
    have "reg (cfg ! l) = K \<longleftrightarrow> l = ?p" if "l \<in> set ls" for l
      using leader [OF that] small pk by auto
    then have "filter (\<lambda>l. reg (cfg ! l) = K) ls = filter (\<lambda>l. l = ?p) ls"
      by (intro filter_cong) auto
    also have "\<dots> = [?p]"
      using sorted p by (intro filter_eq_singleton) (simp_all add: strict_sorted_iff)
    finally have "filter (\<lambda>g. dup_reg g = K) (find_duplicates_ddrc True cfg max_dups)
        = [group_at cfg ?p]"
      by (simp add: gs filt)
    then show ?thesis
      by (simp add: group_at_first [OF ne small])
  qed
  have part2: "sorted_wrt (<) (map (\<lambda>g. hd (dup_indices g)) (find_duplicates_ddrc True cfg max_dups))"
    using sorted by (simp add: gs comp_def group_at_sel)
  have part3: "hd (dup_indices g) = hd (occurrences cfg (dup_reg g))"
    if "g \<in> set (find_duplicates_ddrc True cfg max_dups)"
      and "length (occurrences cfg (dup_reg g)) \<le> 64" for g
  proof -
    from that(1) obtain l where l: "l \<in> set ls" and g: "g = group_at cfg l"
      by (auto simp: gs)
    with leader [OF l] that(2) show ?thesis
      by (simp add: group_at_sel)
  qed
  have part4: "filter (\<lambda>g. dup_reg g = K') (find_duplicates_ddrc True cfg max_dups) = []"
    if once: "length (occurrences cfg K') \<le> 1"
  proof -
    have "reg (cfg ! l) \<noteq> K'" if "l \<in> set ls" for l
    proof
      assume "reg (cfg ! l) = K'"
      with leader [OF that] followers_repeated [of cfg l] once show False by auto
    qed
    then have "filter (\<lambda>l. reg (cfg ! l) = K') ls = []"
      by (auto simp: filter_empty_conv)
    then show ?thesis by (simp add: gs filt)
  qed
  from part1 part2 part3 part4 show ?thesis by blast
qed

theorem find_duplicates_ddrc_groups_witness:
  "find_duplicates_ddrc True
     [\<lparr>reg = 0x10, val = 1\<rparr>, \<lparr>reg = 0x20, val = 2\<rparr>, \<lparr>reg = 0x10, val = 9\<rparr>,
      \<lparr>reg = 0x30, val = 3\<rparr>, \<lparr>reg = 0x20, val = 2\<rparr>, \<lparr>reg = 0x10, val = 1\<rparr>] 100
   = [\<lparr>dup_reg = 0x10, dup_indices = [0, 2, 5], dup_values = [1, 9, 1], dup_count = 3\<rparr>,
      \<lparr>dup_reg = 0x20, dup_indices = [1, 4], dup_values = [2, 2], dup_count = 2\<rparr>] \<and>
   occurrences
     [\<lparr>reg = 0x10, val = 1 :: 32 word\<rparr>, \<lparr>reg = 0x20, val = 2\<rparr>, \<lparr>reg = 0x10, val = 9\<rparr>,
      \<lparr>reg = 0x30, val = 3\<rparr>, \<lparr>reg = 0x20, val = 2\<rparr>, \<lparr>reg = 0x10, val = 1\<rparr>] 0x10 = [0, 2, 5] \<and>
   occurrences
     [\<lparr>reg = 0x10, val = 1 :: 32 word\<rparr>, \<lparr>reg = 0x20, val = 2\<rparr>, \<lparr>reg = 0x10, val = 9\<rparr>,
      \<lparr>reg = 0x30, val = 3\<rparr>, \<lparr>reg = 0x20, val = 2\<rparr>, \<lparr>reg = 0x10, val = 1\<rparr>] 0x30 = [3] \<and>
   filter (\<lambda>g. dup_reg g = 0x10) (find_duplicates_ddrc True
     [\<lparr>reg = 0x10, val = 1\<rparr>, \<lparr>reg = 0x20, val = 2\<rparr>, \<lparr>reg = 0x10, val = 9\<rparr>,
      \<lparr>reg = 0x30, val = 3\<rparr>, \<lparr>reg = 0x20, val = 2\<rparr>, \<lparr>reg = 0x10, val = 1\<rparr>] 100)
   = [\<lparr>dup_reg = 0x10, dup_indices = [0, 2, 5], dup_values = [1, 9, 1], dup_count = 3\<rparr>] \<and>
   filter (\<lambda>g. dup_reg g = 0x30) (find_duplicates_ddrc True
     [\<lparr>reg = 0x10, val = 1\<rparr>, \<lparr>reg = 0x20, val = 2\<rparr>, \<lparr>reg = 0x10, val = 9\<rparr>,
      \<lparr>reg = 0x30, val = 3\<rparr>, \<lparr>reg = 0x20, val = 2\<rparr>, \<lparr>reg = 0x10, val = 1\<rparr>] 100) = []"
proof -
  let ?cfg = "[\<lparr>reg = 0x10, val = 1 :: 32 word\<rparr>, \<lparr>reg = 0x20, val = 2\<rparr>, \<lparr>reg = 0x10, val = 9\<rparr>,
      \<lparr>reg = 0x30, val = 3\<rparr>, \<lparr>reg = 0x20, val = 2\<rparr>, \<lparr>reg = 0x10, val = 1\<rparr>]"
  have gs: "find_duplicates_ddrc True ?cfg 100
   = [\<lparr>dup_reg = 0x10, dup_indices = [0, 2, 5], dup_values = [1, 9, 1], dup_count = 3\<rparr>,
      \<lparr>dup_reg = 0x20, dup_indices = [1, 4], dup_values = [2, 2], dup_count = 2\<rparr>]"
    by code_simp
  have o1: "occurrences ?cfg 0x10 = [0, 2, 5]" by code_simp
  have o2: "occurrences ?cfg 0x30 = [3]" by code_simp
  show ?thesis
    using find_duplicates_ddrc_groups [of ?cfg 100 "0x10" "0x30"] gs o1 o2
    by simp
qed

text \<open>
  C7, as stated: every key that occurs \<open>n\<close> times, \<open>1 < n \<le> 64\<close>, is to get a group.
  Below the key 0x20 occurs twice. With \<open>max_dups = 1\<close> the loop stops after the group
  of 0x10 and 0x20 gets none; when \<open>calloc\<close> fails no key gets a group.
\<close>

theorem find_duplicates_ddrc_groups_counterexample:
  "occurrences
     [\<lparr>reg = 0x10, val = 1 :: 32 word\<rparr>, \<lparr>reg = 0x10, val = 2\<rparr>,
      \<lparr>reg = 0x20, val = 3\<rparr>, \<lparr>reg = 0x20, val = 4\<rparr>] 0x20 = [2, 3] \<and>
   find_duplicates_ddrc True
     [\<lparr>reg = 0x10, val = 1\<rparr>, \<lparr>reg = 0x10, val = 2\<rparr>, \<lparr>reg = 0x20, val = 3\<rparr>, \<lparr>reg = 0x20, val = 4\<rparr>] 1
   = [\<lparr>dup_reg = 0x10, dup_indices = [0, 1], dup_values = [1, 2], dup_count = 2\<rparr>] \<and>
   find_duplicates_ddrc False
     [\<lparr>reg = 0x10, val = 1\<rparr>, \<lparr>reg = 0x10, val = 2\<rparr>, \<lparr>reg = 0x20, val = 3\<rparr>, \<lparr>reg = 0x20, val = 4\<rparr>] 100
   = []"
  by code_simp

section \<open>The comparator on lists of different length, unfolded\<close>

text \<open>
  A call on lists of different length returns -1 at once when the common counts
  disagree, when there is no common key or when an allocation fails; otherwise it
  returns -1 exactly when the nested call on the common sublists returns.
\<close>

lemma compare_different_length:
  assumes "length cfg1 \<noteq> length cfg2"
  shows "compare_ddrc_cfg_arrays malloc_ok cfg1 cfg2 diff_count_p =
     (if fst (count_common_ddrc cfg1 cfg2) \<noteq> 0 \<or> fst (snd (count_common_ddrc cfg1 cfg2)) = 0
         \<or> \<not> malloc_ok
      then Some (- 1, diff_count_p)
      else map_option (\<lambda>nested. (- 1, snd nested))
             (compare_ddrc_cfg_arrays malloc_ok (fst (extract_common_ddrc cfg1 cfg2))
                (snd (extract_common_ddrc cfg1 cfg2)) diff_count_p))"
  using assms
  by (subst compare_ddrc_cfg_arrays.simps) (auto split: option.splits)

section \<open>The extent of the pass that never ends\<close>

text \<open>
  The forward pass skips the common prefix of the two key sequences and arrives at the
  first mismatch. If the left keys are pairwise distinct, the right list is a
  reordering of them and the lists have at most 50 entries, both mismatching keys lie
  in the other list's window, the cursors are stuck, and the comparator does not
  return: no reordering of such a list is ever reported.
\<close>

lemma skip_matching_prefix:
  assumes "p < length cfg1" and "p < length cfg2"
    and "\<forall>j<p. reg (cfg1 ! j) = reg (cfg2 ! j)" and "reg (cfg1 ! p) \<noteq> reg (cfg2 ! p)"
    and "i \<le> p"
  shows "skip_matching cfg1 cfg2 i i = (p, p)"
  using assms(5)
proof (induction "p - i" arbitrary: i)
  case 0
  with assms(4) show ?case
    by (subst skip_matching.simps) simp
next
  case (Suc k)
  then have "i < p" by simp
  with assms(1-3) have "skip_matching cfg1 cfg2 i i = skip_matching cfg1 cfg2 (Suc i) (Suc i)"
    by (subst skip_matching.simps) simp
  also have "\<dots> = (p, p)"
    using Suc \<open>i < p\<close> by (intro Suc.hyps(1)) simp_all
  finally show ?case .
qed

lemma relocate_blocks_prefix:
  assumes "p < length cfg1" and "p < length cfg2"
    and "\<forall>j<p. reg (cfg1 ! j) = reg (cfg2 ! j)" and "reg (cfg1 ! p) \<noteq> reg (cfg2 ! p)"
  shows "relocate_blocks cfg1 cfg2 0 0 blocks = relocate_blocks cfg1 cfg2 p p blocks"
proof (cases "p = 0")
  case True
  then show ?thesis by simp
next
  case False
  with assms(1-3) have "0 < length cfg1" "0 < length cfg2" "reg (cfg1 ! 0) = reg (cfg2 ! 0)"
    by auto
  then have "relocate_blocks cfg1 cfg2 0 0 blocks =
      relocate_blocks cfg1 cfg2 (fst (skip_matching cfg1 cfg2 0 0))
        (snd (skip_matching cfg1 cfg2 0 0)) blocks"
    by (subst relocate_blocks.simps) simp
  also have "skip_matching cfg1 cfg2 0 0 = (p, p)"
    using assms by (intro skip_matching_prefix) simp_all
  finally show ?thesis by simp
qed

lemma found_soon_displaced:
  assumes "distinct (map reg cfg1)" and "length cfg1 = length cfg2" and "length cfg1 \<le> 50"
    and "reg ` set cfg1 = reg ` set cfg2"
    and "p < length cfg1" and "\<forall>j<p. reg (cfg1 ! j) = reg (cfg2 ! j)"
  shows "found_soon (reg (cfg1 ! p)) cfg2 p"
proof -
  from assms(5) have "reg (cfg1 ! p) \<in> reg ` set cfg1" by simp
  with assms(4) have "reg (cfg1 ! p) \<in> reg ` set cfg2" by simp
  then obtain j where j: "j < length cfg2" "reg (cfg2 ! j) = reg (cfg1 ! p)"
    by (auto simp: in_set_conv_nth)
  have "p \<le> j"
  proof (rule ccontr)
    assume "\<not> p \<le> j"
    then have "j < p" by simp
    with assms(6) j have "reg (cfg1 ! j) = reg (cfg1 ! p)" by simp
    with assms(1,5) \<open>j < p\<close> show False
      by (auto simp: distinct_conv_nth)
  qed
  with j assms(2,3) show ?thesis
    unfolding found_soon_iff by (intro exI [of _ j]) simp
qed

lemma compare_reordered_distinct_never_returns:
  assumes "distinct (map reg cfg1)" and "length cfg1 = length cfg2" and "length cfg1 \<le> 50"
    and "reg ` set cfg1 = reg ` set cfg2" and "map reg cfg1 \<noteq> map reg cfg2"
  shows "compare_ddrc_cfg_arrays malloc_ok cfg1 cfg2 diff_count_p = None"
proof -
  from assms(1,2,4) have d2: "distinct (map reg cfg2)" by (rule distinct_same_keys)
  from assms(2,5) have "\<exists>i. i < length cfg1 \<and> reg (cfg1 ! i) \<noteq> reg (cfg2 ! i)"
    by (metis length_map nth_equalityI nth_map)
  then obtain p where p: "p < length cfg1" "reg (cfg1 ! p) \<noteq> reg (cfg2 ! p)"
    and least: "\<forall>j<p. \<not> (j < length cfg1 \<and> reg (cfg1 ! j) \<noteq> reg (cfg2 ! j))"
    using exists_least_iff [of "\<lambda>i. i < length cfg1 \<and> reg (cfg1 ! i) \<noteq> reg (cfg2 ! i)"]
    by auto
  from least p(1) have prefix: "\<forall>j<p. reg (cfg1 ! j) = reg (cfg2 ! j)" by auto
  then have prefix': "\<forall>j<p. reg (cfg2 ! j) = reg (cfg1 ! j)" by simp
  have "found_soon (reg (cfg1 ! p)) cfg2 p"
    using assms(1-4) p(1) prefix by (rule found_soon_displaced)
  moreover have "found_soon (reg (cfg2 ! p)) cfg1 p"
    using d2 assms(2-4) p(1) prefix' by (intro found_soon_displaced) simp_all
  ultimately have "stuck cfg1 cfg2 p p"
    using p assms(2) by (simp add: stuck_def)
  then have "relocate_blocks cfg1 cfg2 p p [] = None"
    by (rule relocate_blocks_stuck)
  moreover have "relocate_blocks cfg1 cfg2 0 0 [] = relocate_blocks cfg1 cfg2 p p []"
    using p assms(2) prefix by (intro relocate_blocks_prefix) simp_all
  moreover have "\<not> same_order cfg1 cfg2"
    using assms(2,5) by (simp add: same_order_iff)
  moreover have "all_present cfg1 cfg2"
    using assms(4) by (simp add: all_present_iff)
  ultimately show ?thesis
    using assms(2) by (simp add: compare_equal_length)
qed

section \<open>The cap on the number of groups\<close>

text \<open>The scanner never returns more than \<open>max_dups\<close> groups.\<close>

lemma find_duplicates_loop_cap:
  "int (length (find_duplicates_loop cfg max_dups i processed dups))
     \<le> max (int (length dups)) max_dups"
proof (induction "length cfg - i" arbitrary: i processed dups)
  case 0
  then show ?case by (simp add: find_duplicates_loop_done)
next
  case (Suc k)
  then have i: "i < length cfg" and k: "k = length cfg - Suc i" by auto
  show ?case
  proof (cases "int (length dups) < max_dups")
    case False
    then show ?thesis by (simp add: find_duplicates_loop_done)
  next
    case room: True
    show ?thesis
    proof (cases "processed ! i")
      case True
      with i room Suc.hyps(1) [OF k, of processed dups] show ?thesis
        by (simp add: find_duplicates_loop_skip)
    next
      case False
      from Suc.hyps(1) [OF k, of "mark (followers cfg i) processed" "dups @ [group_at cfg i]"]
        Suc.hyps(1) [OF k, of processed dups] room
      show ?thesis
        by (auto simp: find_duplicates_loop_group [OF i room False])
    qed
  qed
qed

lemma find_duplicates_ddrc_cap:
  "0 \<le> max_dups \<Longrightarrow> int (length (find_duplicates_ddrc calloc_ok cfg max_dups)) \<le> max_dups"
  using find_duplicates_loop_cap [of cfg max_dups 0 "replicate (length cfg) False" "[]"]
  by (simp add: find_duplicates_ddrc_def)

end
